theory Spec2Isabelle
  imports Complex_Main
begin

section \<open>Doubles\<close>

text \<open>
  The C++ type \<^verbatim>\<open>double\<close>, as far as \<^verbatim>\<open>RefinementTree.cpp\<close> itself looks at it: the file
  compares doubles (\<^verbatim>\<open><=\<close>, \<^verbatim>\<open>>=\<close>, \<^verbatim>\<open>==\<close>, \<^verbatim>\<open>std::min\<close>, \<^verbatim>\<open>std::max\<close>) and
  classifies them (\<^verbatim>\<open>std::isinf\<close>, \<^verbatim>\<open>std::isnan\<close>). A double is a finite value, one of the two
  infinities, or NaN; comparisons follow IEEE 754 (every comparison with NaN is false).
  Arithmetic on doubles is never computed here: wherever the source does arithmetic it is a
  parameter of the model (see \<open>deps\<close> below).
\<close>

datatype dbl = Fin real | PInf | NInf | NaN

fun dle :: "dbl \<Rightarrow> dbl \<Rightarrow> bool" where
  "dle (Fin x) (Fin y) = (x \<le> y)"
| "dle (Fin x) PInf = True"
| "dle (Fin x) NInf = False"
| "dle NInf (Fin y) = True"
| "dle NInf NInf = True"
| "dle NInf PInf = True"
| "dle PInf (Fin y) = False"
| "dle PInf NInf = False"
| "dle PInf PInf = True"
| "dle NaN b = False"
| "dle a NaN = False"

fun dlt :: "dbl \<Rightarrow> dbl \<Rightarrow> bool" where
  "dlt (Fin x) (Fin y) = (x < y)"
| "dlt (Fin x) PInf = True"
| "dlt (Fin x) NInf = False"
| "dlt NInf (Fin y) = True"
| "dlt NInf NInf = False"
| "dlt NInf PInf = True"
| "dlt PInf b = False"
| "dlt NaN b = False"
| "dlt a NaN = False"

definition dge :: "dbl \<Rightarrow> dbl \<Rightarrow> bool" where
  "dge a b = dle b a"

definition deq :: "dbl \<Rightarrow> dbl \<Rightarrow> bool" where
  "deq a b = (a \<noteq> NaN \<and> b \<noteq> NaN \<and> a = b)"





section \<open>Data model\<close>

text \<open>
  The structs are declared in headers that are not part of the sources at hand; their
  fields are the ones \<^verbatim>\<open>RefinementTree.cpp\<close> reads and writes. Counts are \<^verbatim>\<open>size_t\<close> in the
  source and \<open>nat\<close> here: a count grows by one per observation and never reaches \<open>2^64\<close>.

  Modelled from the spec: the field lists of \<^verbatim>\<open>avg_t\<close> (a running average: mean and
  count), \<^verbatim>\<open>qvar_t\<close> (RunningStat: mean, count, variance), \<^verbatim>\<open>qdata_t\<close> (DimensionStats),
  \<^verbatim>\<open>qpred_t\<close> (Predictor), \<^verbatim>\<open>propts_t\<close> (the configuration) and \<^verbatim>\<open>el_t\<close> (a ForestIndex
  entry, ordered by its label). The split filter is kept abstract (a type parameter).
\<close>

record avg_t =
  a_avg :: dbl
  a_cnt :: nat

record qvar_t =
  q_avg :: dbl
  q_cnt :: nat
  q_variance :: dbl

record 'sf qdata_t =
  midpoint :: avg_t
  lowq :: qvar_t
  highq :: qvar_t
  lmid :: avg_t
  hmid :: avg_t
  splitfilter :: 'sf

record 'sf qpred_t =
  p_q :: qvar_t
  p_cnt :: nat
  p_data :: "'sf qdata_t list option"

record split_t =
  is_split :: bool
  s_var :: nat
  boundary :: dbl
  s_low :: nat
  s_high :: nat

record 'sf node_t =
  n_predictor :: "'sf qpred_t"
  n_split :: split_t
  n_correction :: "dbl list option"

record el_t =
  e_label :: nat
  e_nid :: nat

record propts_t =
  q_learn_rate :: nat
  indefference :: dbl
  lower_t :: dbl
  upper_t :: dbl
  ks_limit :: dbl
  filter_rate :: dbl
  filter_val :: dbl

record 'sf tree =
  t_dimen :: nat
  t_nodes :: "'sf node_t list"
  t_mapping :: "el_t list"

text \<open>
  What can go wrong in a call: an \<^verbatim>\<open>assert\<close> that fails, or a read outside an array (the
  node arena, the point, a leaf's per-dimension data), which C++ leaves undefined.
\<close>

datatype error = AssertionFailed | OutOfBounds

section \<open>Label index and descent\<close>

text \<open>
  \<^verbatim>\<open>std::lower_bound\<close> over the label index, as the binary search of the standard library:
  \<open>first\<close> is the start of the remaining range and \<open>len\<close> its length.
\<close>

function lower_bound_from :: "el_t list \<Rightarrow> nat \<Rightarrow> nat \<Rightarrow> nat \<Rightarrow> nat" where
  "lower_bound_from xs first len l =
     (if len = 0 then first
      else let half = len div 2; middle = first + half
           in if e_label (xs ! middle) < l
              then lower_bound_from xs (middle + 1) (len - half - 1) l
              else lower_bound_from xs first half l)"
  by pat_completeness auto
termination
  by (relation "measure (\<lambda>(xs, first, len, l). len)") auto

declare lower_bound_from.simps [simp del]

definition lower_bound :: "el_t list \<Rightarrow> nat \<Rightarrow> nat" where
  "lower_bound xs l = lower_bound_from xs 0 (length xs) l"

text \<open>
  \<^verbatim>\<open>node_t::get_leaf\<close>. The node \<^verbatim>\<open>this\<close> is \<open>nodes ! current\<close>. The recursion follows child
  indices for as long as it meets split nodes; on an arena with a cycle it does not return,
  which is the value \<open>None\<close>.
\<close>

partial_function (option) get_leaf ::
  "'sf node_t list \<Rightarrow> dbl list \<Rightarrow> nat \<Rightarrow> (error + nat) option" where
  "get_leaf nodes point current =
     (if length nodes \<le> current then Some (Inl OutOfBounds)
      else let s = n_split (nodes ! current)
           in if \<not> is_split s then Some (Inr current)
              else if length point \<le> s_var s then Some (Inl OutOfBounds)
              else if dle (point ! s_var s) (boundary s)
                   then get_leaf nodes point (s_low s)
                   else get_leaf nodes point (s_high s))"

text \<open>\<^verbatim>\<open>RefinementTree::lookup\<close>: the sentinel for an unknown label, else the leaf's statistics.\<close>

definition lookup :: "'sf tree \<Rightarrow> nat \<Rightarrow> dbl list \<Rightarrow> (error + qvar_t) option" where
  "lookup t l point =
     (let res = lower_bound (t_mapping t) l
      in if res = length (t_mapping t) \<or> e_label (t_mapping t ! res) \<noteq> l
         then Some (Inr \<lparr>q_avg = NaN, q_cnt = 0, q_variance = Fin 0\<rparr>)
         else (case get_leaf (t_nodes t) point (e_nid (t_mapping t ! res)) of
                 None \<Rightarrow> None
               | Some (Inl e) \<Rightarrow> Some (Inl e)
               | Some (Inr n) \<Rightarrow>
                   let node = t_nodes t ! n
                   in Some (Inr \<lparr>q_avg = q_avg (p_q (n_predictor node)),
                                 q_cnt = p_cnt (n_predictor node),
                                 q_variance = q_variance (p_q (n_predictor node))\<rparr>)))"







section \<open>What the source takes from elsewhere\<close>

text \<open>
  The linear program handed to GLPK, as the calls of \<^verbatim>\<open>set_correction\<close> build it. A fresh
  row is free and empty, a fresh column is fixed at zero, every objective coefficient is
  zero. \<open>lp_mat_row lp r\<close> is the array given to \<^verbatim>\<open>glp_set_mat_row\<close> for row \<open>r\<close>: its entry
  \<open>k\<close> (for \<open>1 \<le> k \<le> nCol\<close>) is the coefficient of column \<open>k\<close>; entry \<open>0\<close> is not read.
\<close>

datatype glp_bnd = GLP_FR | GLP_LO | GLP_UP | GLP_DB | GLP_FX

datatype glp_dir = GLP_MIN | GLP_MAX

datatype glp_status = GLP_UNDEF | GLP_FEAS | GLP_INFEAS | GLP_NOFEAS | GLP_OPT | GLP_UNBND

record lp_t =
  lp_ncols :: nat
  lp_nrows :: nat
  lp_mat_row :: "nat \<Rightarrow> dbl list"
  lp_row_bnds :: "nat \<Rightarrow> glp_bnd \<times> dbl \<times> dbl"
  lp_col_bnds :: "nat \<Rightarrow> glp_bnd \<times> dbl \<times> dbl"
  lp_obj_coef :: "nat \<Rightarrow> dbl"
  lp_obj_dir :: glp_dir

definition glp_empty :: lp_t where
  "glp_empty =
     \<lparr>lp_ncols = 0, lp_nrows = 0, lp_mat_row = (\<lambda>r. []),
      lp_row_bnds = (\<lambda>r. (GLP_FR, Fin 0, Fin 0)),
      lp_col_bnds = (\<lambda>c. (GLP_FX, Fin 0, Fin 0)),
      lp_obj_coef = (\<lambda>c. Fin 0), lp_obj_dir = GLP_MIN\<rparr>"

text \<open>
  Everything \<^verbatim>\<open>RefinementTree.cpp\<close> calls without defining it is a field of \<open>deps\<close>, so that
  the theorems hold for every implementation of it:
  \<^item> the statistics of the missing headers: \<^verbatim>\<open>qvar_t::operator+=(double)\<close>,
    \<^verbatim>\<open>avg_t::operator+=(double)\<close>, \<^verbatim>\<open>avg_t::operator+=(const avg_t&)\<close>, \<^verbatim>\<open>qvar_t::approximate\<close>;
  \<^item> the split filter: a default-constructed filter, \<^verbatim>\<open>add\<close>, \<^verbatim>\<open>max\<close>, \<^verbatim>\<open>reset\<close>;
  \<^item> floating-point arithmetic: \<^verbatim>\<open>*\<close>, \<^verbatim>\<open>+\<close>, \<^verbatim>\<open>/\<close>, \<^verbatim>\<open>std::sqrt\<close>, \<^verbatim>\<open>std::pow\<close>, and the
    conversion of a \<^verbatim>\<open>size_t\<close> to \<^verbatim>\<open>double\<close> (which rounds a count that has no double of its
    own);
  \<^item> \<^verbatim>\<open>std::rand\<close>, as a generator stepping a state of type \<open>'r\<close>;
  \<^item> GLPK: whether \<^verbatim>\<open>glp_create_prob\<close> returns a problem, and \<^verbatim>\<open>glp_simplex\<close>, which gives
    its return code, the status \<^verbatim>\<open>glp_get_status\<close> reads afterwards and the primal values
    \<^verbatim>\<open>glp_get_col_prim\<close> reads afterwards.
\<close>

record ('sf, 'r) deps =
  qvar_add :: "qvar_t \<Rightarrow> dbl \<Rightarrow> qvar_t"
  avg_add :: "avg_t \<Rightarrow> dbl \<Rightarrow> avg_t"
  avg_merge :: "avg_t \<Rightarrow> avg_t \<Rightarrow> avg_t"
  approximate :: "qvar_t \<Rightarrow> qvar_t \<Rightarrow> qvar_t"
  sf_new :: 'sf
  sf_add :: "'sf \<Rightarrow> qvar_t \<Rightarrow> qvar_t \<Rightarrow> dbl \<Rightarrow> dbl \<Rightarrow> dbl \<Rightarrow> dbl \<Rightarrow> dbl \<Rightarrow> 'sf"
  sf_max :: "'sf \<Rightarrow> dbl"
  sf_reset :: "'sf \<Rightarrow> 'sf"
  fmul :: "dbl \<Rightarrow> dbl \<Rightarrow> dbl"
  fadd :: "dbl \<Rightarrow> dbl \<Rightarrow> dbl"
  fdiv :: "dbl \<Rightarrow> dbl \<Rightarrow> dbl"
  fsqrt :: "dbl \<Rightarrow> dbl"
  fpow :: "dbl \<Rightarrow> dbl \<Rightarrow> dbl"
  size_to_double :: "nat \<Rightarrow> dbl"
  rand :: "'r \<Rightarrow> nat \<times> 'r"
  glp_create_prob :: bool
  glp_simplex :: "lp_t \<Rightarrow> int \<times> glp_status \<times> (nat \<Rightarrow> dbl)"

text \<open>
  Modelled from the spec: default-constructed statistics are empty (count 0, mean 0,
  variance 0), a default-constructed node is a leaf without per-dimension data and
  without correction.
\<close>

definition avg_zero :: avg_t where
  "avg_zero = \<lparr>a_avg = Fin 0, a_cnt = 0\<rparr>"

definition qvar_zero :: qvar_t where
  "qvar_zero = \<lparr>q_avg = Fin 0, q_cnt = 0, q_variance = Fin 0\<rparr>"

definition qdata_new :: "('sf, 'r) deps \<Rightarrow> 'sf qdata_t" where
  "qdata_new D =
     \<lparr>midpoint = avg_zero, lowq = qvar_zero, highq = qvar_zero,
      lmid = avg_zero, hmid = avg_zero, splitfilter = sf_new D\<rparr>"

definition node_new :: "'sf node_t" where
  "node_new =
     \<lparr>n_predictor = \<lparr>p_q = qvar_zero, p_cnt = 0, p_data = None\<rparr>,
      n_split = \<lparr>is_split = False, s_var = 0, boundary = Fin 0, s_low = 0, s_high = 0\<rparr>,
      n_correction = None\<rparr>"

text \<open>\<^verbatim>\<open>for (i = lo; i < n; ++i) s = body(i, s)\<close>, the shape of every counting loop below.\<close>

function for_loop :: "nat \<Rightarrow> nat \<Rightarrow> (nat \<Rightarrow> 's \<Rightarrow> 's) \<Rightarrow> 's \<Rightarrow> 's" where
  "for_loop i n body s = (if i < n then for_loop (Suc i) n body (body i s) else s)"
  by pat_completeness auto
termination
  by (relation "measure (\<lambda>(i, n, body, s). n - i)") auto

declare for_loop.simps [simp del]

section \<open>The correction of a split leaf\<close>

text \<open>
  \<^verbatim>\<open>node_t::set_correction\<close>. The columns are: \<open>1 .. dimen\<close> the weights, \<open>dimen + 1\<close> the
  constant, then four blocks of \<open>dimen\<close> slack columns. The array \<^verbatim>\<open>row\<close> lives across all
  rows: each row overwrites the entries it sets and resets some afterwards.
  The diagnostic line written to \<^verbatim>\<open>std::cerr\<close>, the file written by \<^verbatim>\<open>glp_write_lp\<close> and the
  solver settings are not modelled; \<^verbatim>\<open>glp_set_col_kind(lp, i, GLP_CV)\<close> leaves a column as it
  is created.
\<close>

definition set_obj_coef :: "lp_t \<Rightarrow> nat \<Rightarrow> dbl \<Rightarrow> lp_t" where
  "set_obj_coef lp j c = lp\<lparr>lp_obj_coef := (lp_obj_coef lp)(j := c)\<rparr>"

definition set_col_bnds :: "lp_t \<Rightarrow> nat \<Rightarrow> glp_bnd \<times> dbl \<times> dbl \<Rightarrow> lp_t" where
  "set_col_bnds lp j b = lp\<lparr>lp_col_bnds := (lp_col_bnds lp)(j := b)\<rparr>"

text \<open>Filling the weight entries of \<^verbatim>\<open>row\<close> for dimension \<open>d\<close> (the loop over \<open>i\<close>).\<close>

definition fill_weight ::
  "('sf, 'r) deps \<Rightarrow> 'sf qdata_t list \<Rightarrow> nat \<Rightarrow> avg_t \<Rightarrow> nat \<Rightarrow> dbl list \<Rightarrow> dbl list" where
  "fill_weight D data d mid i row =
     (if i = d then row[i + 1 := a_avg mid]
      else row[i + 1 := a_avg (avg_merge D (lmid (data ! i)) (hmid (data ! i)))])"

text \<open>One pass of the body of \<^verbatim>\<open>for (bool low : {true, false})\<close>, on (\<open>rowno\<close>, \<open>row\<close>, \<open>lp\<close>).\<close>

definition add_side ::
  "('sf, 'r) deps \<Rightarrow> nat \<Rightarrow> 'sf qdata_t list \<Rightarrow> qvar_t \<Rightarrow> nat \<Rightarrow> bool
   \<Rightarrow> nat \<times> dbl list \<times> lp_t \<Rightarrow> nat \<times> dbl list \<times> lp_t" where
  "add_side D dimen data q d low st =
     (case st of (rowno0, row0, lp0) \<Rightarrow>
        let rowno = rowno0 + 1;
            qval = (if low then lowq (data ! d) else highq (data ! d));
            mid = (if low then lmid (data ! d) else hmid (data ! d))
        in if q_cnt qval = 0 then (rowno, row0, lp0)
           else
             let row1 = for_loop 0 dimen (fill_weight D data d mid) row0;
                 row2 = row1[dimen + 1 := Fin 1];
                 row3 = row2[dimen + 2 + d + (if low then 0 else dimen * 2) := Fin 1];
                 row4 = row3[dimen + 2 + d + dimen + (if low then 0 else dimen * 2) := Fin (- 1)];
                 lp1 = lp0\<lparr>lp_mat_row := (lp_mat_row lp0)(rowno := row4),
                           lp_row_bnds := (lp_row_bnds lp0)(rowno := (GLP_FX, q_avg qval, q_avg qval))\<rparr>;
                 row5 = row4[dimen + 2 + d + (if low then 0 else dimen) := Fin 0];
                 row6 = row5[dimen + 2 + d + dimen + (if low then 0 else dimen * 2) := Fin 0];
                 r = fdiv D (fsqrt D (q_variance qval)) (fsqrt D (q_variance q));
                 lp2 = set_obj_coef lp1 (dimen + 2 + d + (if low then 0 else dimen))
                         (fdiv D (Fin 1) (fadd D (Fin 1) (fpow D r (Fin 2))));
                 lp3 = set_obj_coef lp2 (dimen + 2 + d + dimen + (if low then 0 else dimen * 2))
                         (fdiv D (Fin 1) (fadd D (Fin 1) r))
             in (rowno, row6, lp3))"

definition add_dimension ::
  "('sf, 'r) deps \<Rightarrow> nat \<Rightarrow> 'sf qdata_t list \<Rightarrow> qvar_t \<Rightarrow> nat
   \<Rightarrow> nat \<times> dbl list \<times> lp_t \<Rightarrow> nat \<times> dbl list \<times> lp_t" where
  "add_dimension D dimen data q d st =
     add_side D dimen data q d False (add_side D dimen data q d True st)"

definition bound_column :: "nat \<Rightarrow> nat \<Rightarrow> lp_t \<Rightarrow> lp_t" where
  "bound_column dimen i lp =
     (if dimen + 2 \<le> i then set_col_bnds lp i (GLP_LO, Fin 0, PInf)
      else set_col_bnds lp i (GLP_FR, NInf, PInf))"

text \<open>The problem as it stands when \<^verbatim>\<open>glp_simplex\<close> is called.\<close>

definition correction_lp ::
  "('sf, 'r) deps \<Rightarrow> nat \<Rightarrow> 'sf qdata_t list \<Rightarrow> qvar_t \<Rightarrow> lp_t" where
  "correction_lp D dimen data q =
     (let nCol = dimen + dimen * 4 + 1;
          nRow = dimen * 2;
          row = replicate (nCol + 1) (Fin 0);
          lp0 = glp_empty\<lparr>lp_ncols := nCol + 1, lp_nrows := nRow + 1\<rparr>;
          (rowno, row', lp1) = for_loop 0 dimen (add_dimension D dimen data q) (0, row, lp0);
          lp2 = for_loop 1 (nCol + 1) (bound_column dimen) lp1;
          lp3 = for_loop 0 (dimen + 2) (\<lambda>i lp. set_obj_coef lp i (Fin 0)) lp2
      in lp3\<lparr>lp_obj_dir := GLP_MIN\<rparr>)"

text \<open>
  \<open>set_correction\<close> works on the node \<^verbatim>\<open>this\<close>, whose per-dimension data are \<open>data\<close>. The
  buffer of the coefficients is allocated with the member \<^verbatim>\<open>_dimen\<close> of a missing header and
  filled up to the parameter \<^verbatim>\<open>dimen\<close>; the two are taken to agree.
\<close>

definition set_correction ::
  "('sf, 'r) deps \<Rightarrow> nat \<Rightarrow> 'sf qdata_t list \<Rightarrow> 'sf node_t \<Rightarrow> 'sf node_t" where
  "set_correction D dimen data this =
     (if deq (q_variance (p_q (n_predictor this))) (Fin 0) then this
      else if \<not> glp_create_prob D then this
      else
        (case glp_simplex D (correction_lp D dimen data (p_q (n_predictor this))) of
           (result, status, col_prim) \<Rightarrow>
             if result = 0 \<and> status = GLP_OPT
             then this\<lparr>n_correction := Some (map (\<lambda>i. col_prim (i + 1)) [0..<dimen + 1])\<rparr>
             else this\<lparr>n_correction := None\<rparr>))"

section \<open>Updating a leaf\<close>

text \<open>
  The first loop of \<^verbatim>\<open>node_t::update\<close>, on (\<open>data\<close>, \<open>svar\<close>, \<open>cnt\<close>, generator state): the
  observation goes to the low or the high side of dimension \<open>i\<close>, the filter of the
  dimension is refreshed, and a dimension whose filter has reached \<^verbatim>\<open>_filter_val\<close> takes
  the place of the chosen one when \<^verbatim>\<open>std::rand() % cnt\<close> is zero. The counters \<^verbatim>\<open>svar\<close> and
  \<^verbatim>\<open>cnt\<close> are of type \<^verbatim>\<open>int\<close> in the source; they stay below \<open>dimen\<close>, which is taken to be
  less than \<open>2^31\<close>.
\<close>

definition observe_dim ::
  "('sf, 'r) deps \<Rightarrow> dbl list \<Rightarrow> dbl \<Rightarrow> dbl \<Rightarrow> propts_t \<Rightarrow> nat \<Rightarrow> 'sf qdata_t \<Rightarrow> 'sf qdata_t" where
  "observe_dim D point nval delta options i dp =
     (let dp1 = (if dle (point ! i) (a_avg (midpoint dp))
                 then dp\<lparr>lowq := qvar_add D (lowq dp) nval,
                         lmid := avg_add D (lmid dp) (point ! i)\<rparr>
                 else dp\<lparr>highq := qvar_add D (highq dp) nval,
                         hmid := avg_add D (hmid dp) (point ! i)\<rparr>)
      in dp1\<lparr>splitfilter :=
               sf_add D (splitfilter dp1) (lowq dp1) (highq dp1)
                 (fmul D delta (indefference options))
                 (lower_t options) (upper_t options) (ks_limit options) (filter_rate options)\<rparr>)"

definition update_dim ::
  "('sf, 'r) deps \<Rightarrow> dbl list \<Rightarrow> dbl \<Rightarrow> dbl \<Rightarrow> propts_t \<Rightarrow> nat
   \<Rightarrow> 'sf qdata_t list \<times> nat \<times> nat \<times> 'r \<Rightarrow> 'sf qdata_t list \<times> nat \<times> nat \<times> 'r" where
  "update_dim D point nval delta options i st =
     (case st of (data, svar, cnt, g) \<Rightarrow>
        let dp = observe_dim D point nval delta options i (data ! i);
            data' = data[i := dp]
        in if dge (sf_max D (splitfilter dp)) (filter_val options)
           then (case rand D g of (r, g') \<Rightarrow>
                   (data', (if r mod (cnt + 1) = 0 then i else svar), cnt + 1, g'))
           else (data', svar, cnt, g))"

text \<open>The midpoints of the two new leaves (the loop over \<open>i\<close> of the split branch).\<close>

definition seed_midpoint ::
  "('sf, 'r) deps \<Rightarrow> 'sf qdata_t list \<Rightarrow> nat \<Rightarrow> nat
   \<Rightarrow> 'sf qdata_t list \<times> 'sf qdata_t list \<Rightarrow> 'sf qdata_t list \<times> 'sf qdata_t list" where
  "seed_midpoint D tmp svar i st =
     (case st of (ldata, hdata) \<Rightarrow>
        if i = svar
        then (ldata[i := (ldata ! i)\<lparr>midpoint := lmid (tmp ! i)\<rparr>],
              hdata[i := (hdata ! i)\<lparr>midpoint := hmid (tmp ! i)\<rparr>])
        else let tmid = avg_merge D (lmid (tmp ! i)) (hmid (tmp ! i))
             in (ldata[i := (ldata ! i)\<lparr>midpoint := tmid\<rparr>],
                 hdata[i := (hdata ! i)\<lparr>midpoint := tmid\<rparr>]))"

text \<open>A side without observations takes the mean of the leaf, when the leaf has one.\<close>

definition seed_q :: "qvar_t \<Rightarrow> qvar_t \<Rightarrow> qvar_t" where
  "seed_q oq q =
     (if 0 < q_cnt oq \<and> q_cnt q = 0
      then q\<lparr>q_cnt := 1, q_avg := q_avg oq, q_variance := Fin 0\<rparr>
      else q)"

definition new_leaf :: "qvar_t \<Rightarrow> 'sf qdata_t list \<Rightarrow> 'sf node_t" where
  "new_leaf q data =
     node_new\<lparr>n_predictor := \<lparr>p_q = q, p_cnt = q_cnt q, p_data = Some data\<rparr>\<rparr>"

text \<open>
  The split branch. \<open>this\<close> is the leaf with its statistics already updated, \<open>tmp\<close> its
  per-dimension data, \<open>org\<close> its index. The two asserts that close the branch are the last
  test.
\<close>

definition split_leaf ::
  "('sf, 'r) deps \<Rightarrow> nat \<Rightarrow> 'sf node_t list \<Rightarrow> nat \<Rightarrow> 'sf node_t \<Rightarrow> 'sf qdata_t list \<Rightarrow> nat
   \<Rightarrow> error + 'sf node_t list" where
  "split_leaf D dimen nodes org this tmp svar =
     (let slow = length nodes;
          shigh = length nodes + 1;
          sp = \<lparr>is_split = True, s_var = svar, boundary = a_avg (midpoint (tmp ! svar)),
                s_low = slow, s_high = shigh\<rparr>;
          oq = p_q (n_predictor this);
          (ldata, hdata) = for_loop 0 dimen (seed_midpoint D tmp svar)
                             (replicate dimen (qdata_new D), replicate dimen (qdata_new D));
          ql = seed_q oq (lowq (tmp ! svar));
          qh = seed_q oq (highq (tmp ! svar));
          this1 = set_correction D dimen tmp (this\<lparr>n_split := sp\<rparr>);
          this2 = this1\<lparr>n_predictor := (n_predictor this1)\<lparr>p_data := None\<rparr>\<rparr>
      in if q_cnt qh = 0 \<or> q_cnt ql = 0 then Inl AssertionFailed
         else Inr (nodes[org := this2] @ [new_leaf ql ldata, new_leaf qh hdata]))"

text \<open>
  The other branch: the split bounds. In \<^verbatim>\<open>std::pow(5, mn) < mx\<close> the counts \<^verbatim>\<open>mn\<close> and \<^verbatim>\<open>mx\<close>
  are of type \<^verbatim>\<open>size_t\<close>: both are converted to \<^verbatim>\<open>double\<close>, the power is the one of doubles,
  and the comparison is the one of doubles. The two other tests compare counts.
\<close>

definition rebalance_dim ::
  "('sf, 'r) deps \<Rightarrow> nat \<Rightarrow> 'sf qdata_t list \<times> bool \<Rightarrow> 'sf qdata_t list \<times> bool" where
  "rebalance_dim D i st =
     (case st of (data, rezero) \<Rightarrow>
        let dp = data ! i;
            mx = max (a_cnt (hmid dp)) (a_cnt (lmid dp));
            mn = min (a_cnt (hmid dp)) (a_cnt (lmid dp))
        in if 2 \<le> mx
              \<and> dlt (fpow D (Fin 5) (size_to_double D mn)) (size_to_double D mx)
              \<and> a_cnt (midpoint dp) < mx
           then
             let nm = avg_merge D (lmid dp) (hmid dp)
             in if deq (a_avg nm) (a_avg (midpoint dp)) then (data, rezero)
                else
                  let q = approximate D (lowq dp) (highq dp);
                      q' = q\<lparr>q_cnt := q_cnt q div 2\<rparr>
                  in (data[i := dp\<lparr>hmid := nm\<lparr>a_cnt := a_cnt nm div 2\<rparr>,
                                   lmid := nm\<lparr>a_cnt := a_cnt nm div 2\<rparr>,
                                   midpoint := avg_merge D (midpoint dp) nm,
                                   lowq := q', highq := q'\<rparr>], True)
           else (data, rezero))"

definition reset_filter :: "('sf, 'r) deps \<Rightarrow> nat \<Rightarrow> 'sf qdata_t list \<Rightarrow> 'sf qdata_t list" where
  "reset_filter D i data = data[i := (data ! i)\<lparr>splitfilter := sf_reset D (splitfilter (data ! i))\<rparr>]"

definition rebalance :: "('sf, 'r) deps \<Rightarrow> nat \<Rightarrow> 'sf qdata_t list \<Rightarrow> 'sf qdata_t list" where
  "rebalance D dimen data =
     (case for_loop 0 dimen (rebalance_dim D) (data, False) of
        (data', rezero) \<Rightarrow>
          if rezero then for_loop 0 dimen (reset_filter D) data' else data')"

text \<open>
  \<^verbatim>\<open>node_t::update\<close> on the node \<open>nodes ! org\<close>. Reading \<^verbatim>\<open>point\<close> or the per-dimension data
  beyond their ends is undefined in C++; the model stops with \<open>OutOfBounds\<close> before the
  first loop would do it.
\<close>

definition node_update ::
  "('sf, 'r) deps \<Rightarrow> dbl list \<Rightarrow> nat \<Rightarrow> dbl \<Rightarrow> 'sf node_t list \<Rightarrow> nat \<Rightarrow> dbl \<Rightarrow> propts_t \<Rightarrow> 'r
   \<Rightarrow> error + 'sf node_t list \<times> 'r" where
  "node_update D point dimen nval nodes org delta options g =
     (let this = nodes ! org
      in if is_split (n_split this) then Inl AssertionFailed
         else
           let pred = n_predictor this;
               data0 = (case p_data pred of
                          None \<Rightarrow> replicate dimen (qdata_new D)
                        | Some d \<Rightarrow> d)
           in if length point < dimen \<or> length data0 < dimen then Inl OutOfBounds
              else
                let q = qvar_add D ((p_q pred)\<lparr>q_cnt := min (q_cnt (p_q pred)) (q_learn_rate options)\<rparr>) nval;
                    (data, svar, cnt, g') =
                       for_loop 0 dimen (update_dim D point nval delta options) (data0, 0, 0, g);
                    this' = this\<lparr>n_predictor := \<lparr>p_q = q, p_cnt = p_cnt pred + 1, p_data = Some data\<rparr>\<rparr>
                in if 0 < cnt
                   then (case split_leaf D dimen nodes org this' data svar of
                           Inl e \<Rightarrow> Inl e
                         | Inr nodes' \<Rightarrow> Inr (nodes', g'))
                   else Inr (nodes[org := this'\<lparr>n_predictor :=
                                (n_predictor this')\<lparr>p_data := Some (rebalance D dimen data)\<rparr>\<rparr>], g'))"

section \<open>Updating the tree\<close>

text \<open>
  \<^verbatim>\<open>RefinementTree::update\<close>: the entry of the label is found or made (with a new node at
  the end of the arena as its root), then the leaf of the point is updated.
\<close>

definition resolve_or_create :: "'sf tree \<Rightarrow> nat \<Rightarrow> 'sf tree \<times> nat" where
  "resolve_or_create t l =
     (let res = lower_bound (t_mapping t) l
      in if res = length (t_mapping t) \<or> e_label (t_mapping t ! res) \<noteq> l
         then (t\<lparr>t_nodes := t_nodes t @ [node_new],
                 t_mapping := take res (t_mapping t)
                              @ [\<lparr>e_label = l, e_nid = length (t_nodes t)\<rparr>]
                              @ drop res (t_mapping t)\<rparr>, res)
         else (t, res))"

definition update ::
  "('sf, 'r) deps \<Rightarrow> 'sf tree \<Rightarrow> nat \<Rightarrow> dbl list \<Rightarrow> nat \<Rightarrow> dbl \<Rightarrow> dbl \<Rightarrow> propts_t \<Rightarrow> 'r
   \<Rightarrow> (error + 'sf tree \<times> 'r) option" where
  "update D t l point dimen nval delta options g =
     (case resolve_or_create (t\<lparr>t_dimen := dimen\<rparr>) l of
        (t1, res) \<Rightarrow>
          if e_label (t_mapping t1 ! res) \<noteq> l then Some (Inl AssertionFailed)
          else
            (case get_leaf (t_nodes t1) point (e_nid (t_mapping t1 ! res)) of
               None \<Rightarrow> None
             | Some (Inl e) \<Rightarrow> Some (Inl e)
             | Some (Inr n) \<Rightarrow>
                 (case node_update D point dimen nval (t_nodes t1) n delta options g of
                    Inl e \<Rightarrow> Some (Inl e)
                  | Inr (nodes', g') \<Rightarrow> Some (Inr (t1\<lparr>t_nodes := nodes'\<rparr>, g')))))"

section \<open>Sequences of updates\<close>

text \<open>
  The tree as the constructor leaves it (the constructor has an empty body; the vectors
  start empty), and a caller that makes one call of \<open>update\<close> after the other with one
  \<open>dimen\<close>, stopping at the first call that does not return a tree.
\<close>

definition tree_new :: "'sf tree" where
  "tree_new = \<lparr>t_dimen = 0, t_nodes = [], t_mapping = []\<rparr>"

record call =
  c_label :: nat
  c_point :: "dbl list"
  c_nval :: dbl
  c_delta :: dbl
  c_options :: propts_t

fun updates ::
  "('sf, 'r) deps \<Rightarrow> nat \<Rightarrow> call list \<Rightarrow> 'sf tree \<times> 'r \<Rightarrow> (error + 'sf tree \<times> 'r) option" where
  "updates D dimen [] s = Some (Inr s)"
| "updates D dimen (c # cs) s =
     (case update D (fst s) (c_label c) (c_point c) dimen (c_nval c) (c_delta c) (c_options c) (snd s) of
        None \<Rightarrow> None
      | Some (Inl e) \<Rightarrow> Some (Inl e)
      | Some (Inr s') \<Rightarrow> updates D dimen cs s')"

section \<open>Descent as the specification words it\<close>

text \<open>
  The descent of the specification: starting at a root, while the current node is internal,
  follow the low child if the coordinate of the point in the split dimension is at most the
  split boundary, else the high child; stop at a leaf. \<open>descend nodes point root leaf\<close> says
  that this walk from \<open>root\<close> stops at \<open>leaf\<close>.
\<close>

inductive descend :: "'sf node_t list \<Rightarrow> dbl list \<Rightarrow> nat \<Rightarrow> nat \<Rightarrow> bool"
  for nodes :: "'sf node_t list" and point :: "dbl list" where
  stop: "current < length nodes \<Longrightarrow> \<not> is_split (n_split (nodes ! current))
         \<Longrightarrow> descend nodes point current current"
| low: "current < length nodes \<Longrightarrow> is_split (n_split (nodes ! current))
        \<Longrightarrow> s_var (n_split (nodes ! current)) < length point
        \<Longrightarrow> dle (point ! s_var (n_split (nodes ! current))) (boundary (n_split (nodes ! current)))
        \<Longrightarrow> descend nodes point (s_low (n_split (nodes ! current))) leaf
        \<Longrightarrow> descend nodes point current leaf"
| high: "current < length nodes \<Longrightarrow> is_split (n_split (nodes ! current))
        \<Longrightarrow> s_var (n_split (nodes ! current)) < length point
        \<Longrightarrow> \<not> dle (point ! s_var (n_split (nodes ! current))) (boundary (n_split (nodes ! current)))
        \<Longrightarrow> descend nodes point (s_high (n_split (nodes ! current))) leaf
        \<Longrightarrow> descend nodes point current leaf"

section \<open>Well-formed trees\<close>

text \<open>
  The shape every arena built by \<open>update\<close> has, for calls with one \<open>dimen\<close>: the children
  of a split node lie behind it in the arena and its split dimension is below \<open>dimen\<close>; a
  leaf has no correction, and per-dimension data, if any, for at least \<open>dimen\<close> dimensions.
  The label index is strictly sorted by label and points into the arena.
\<close>

definition wf_node :: "nat \<Rightarrow> nat \<Rightarrow> nat \<Rightarrow> 'sf node_t \<Rightarrow> bool" where
  "wf_node dimen sz i n =
     (if is_split (n_split n)
      then i < s_low (n_split n) \<and> s_low (n_split n) < sz
           \<and> i < s_high (n_split n) \<and> s_high (n_split n) < sz
           \<and> s_var (n_split n) < dimen
      else n_correction n = None
           \<and> (case p_data (n_predictor n) of None \<Rightarrow> True | Some d \<Rightarrow> dimen \<le> length d))"

definition wf_nodes :: "nat \<Rightarrow> 'sf node_t list \<Rightarrow> bool" where
  "wf_nodes dimen nodes = (\<forall>i < length nodes. wf_node dimen (length nodes) i (nodes ! i))"

definition wf_mapping :: "nat \<Rightarrow> el_t list \<Rightarrow> bool" where
  "wf_mapping sz mapping =
     (sorted_wrt (<) (map e_label mapping) \<and> (\<forall>e \<in> set mapping. e_nid e < sz))"

definition wf_tree :: "nat \<Rightarrow> 'sf tree \<Rightarrow> bool" where
  "wf_tree dimen t =
     (wf_nodes dimen (t_nodes t) \<and> wf_mapping (length (t_nodes t)) (t_mapping t))"

section \<open>A reference environment\<close>

text \<open>
  One implementation of \<open>deps\<close>, used to run the model on concrete inputs. The theorems
  below do not depend on it: they hold for every environment.

  Modelled from the spec: the running statistics (a sample moves the mean by its distance
  divided by the new count; merging takes the count-weighted mean and the sum of the
  counts). Arithmetic is exact on finite values and gives NaN otherwise. The filter keeps
  as evidence the distance of the two means once both sides have observations. The
  generator reads its draws from a list. The solver is a parameter.
\<close>

fun lift1 :: "(real \<Rightarrow> real) \<Rightarrow> dbl \<Rightarrow> dbl" where
  "lift1 f (Fin x) = Fin (f x)"
| "lift1 f PInf = NaN"
| "lift1 f NInf = NaN"
| "lift1 f NaN = NaN"

fun lift2 :: "(real \<Rightarrow> real \<Rightarrow> real) \<Rightarrow> dbl \<Rightarrow> dbl \<Rightarrow> dbl" where
  "lift2 f (Fin x) (Fin y) = Fin (f x y)"
| "lift2 f (Fin x) PInf = NaN"
| "lift2 f (Fin x) NInf = NaN"
| "lift2 f (Fin x) NaN = NaN"
| "lift2 f PInf b = NaN"
| "lift2 f NInf b = NaN"
| "lift2 f NaN b = NaN"

definition ref_avg_add :: "avg_t \<Rightarrow> dbl \<Rightarrow> avg_t" where
  "ref_avg_add a x =
     \<lparr>a_avg = (if a_cnt a = 0 then x
               else lift2 (\<lambda>m v. m + (v - m) / real (a_cnt a + 1)) (a_avg a) x),
      a_cnt = a_cnt a + 1\<rparr>"

definition ref_avg_merge :: "avg_t \<Rightarrow> avg_t \<Rightarrow> avg_t" where
  "ref_avg_merge a b =
     (if a_cnt b = 0 then a
      else if a_cnt a = 0 then b
      else \<lparr>a_avg = lift2 (\<lambda>m v. (m * real (a_cnt a) + v * real (a_cnt b))
                                  / real (a_cnt a + a_cnt b)) (a_avg a) (a_avg b),
            a_cnt = a_cnt a + a_cnt b\<rparr>)"

definition ref_qvar_add :: "qvar_t \<Rightarrow> dbl \<Rightarrow> qvar_t" where
  "ref_qvar_add q x =
     (if q_cnt q = 0 then \<lparr>q_avg = x, q_cnt = 1, q_variance = Fin 0\<rparr>
      else
        let m' = lift2 (\<lambda>m v. m + (v - m) / real (q_cnt q + 1)) (q_avg q) x
        in \<lparr>q_avg = m', q_cnt = q_cnt q + 1,
            q_variance =
              lift2 (\<lambda>s d. (s * real (q_cnt q) + d) / real (q_cnt q + 1)) (q_variance q)
                (lift2 (*) (lift2 (-) x (q_avg q)) (lift2 (-) x m'))\<rparr>)"

definition ref_approximate :: "qvar_t \<Rightarrow> qvar_t \<Rightarrow> qvar_t" where
  "ref_approximate a b =
     (if q_cnt b = 0 then a
      else if q_cnt a = 0 then b
      else \<lparr>q_avg = lift2 (\<lambda>m v. (m * real (q_cnt a) + v * real (q_cnt b))
                                  / real (q_cnt a + q_cnt b)) (q_avg a) (q_avg b),
            q_cnt = q_cnt a + q_cnt b,
            q_variance = lift2 (\<lambda>m v. (m * real (q_cnt a) + v * real (q_cnt b))
                                  / real (q_cnt a + q_cnt b)) (q_variance a) (q_variance b)\<rparr>)"

definition ref_sf_add ::
  "dbl \<Rightarrow> qvar_t \<Rightarrow> qvar_t \<Rightarrow> dbl \<Rightarrow> dbl \<Rightarrow> dbl \<Rightarrow> dbl \<Rightarrow> dbl \<Rightarrow> dbl" where
  "ref_sf_add s lo hi margin lower upper limit rate =
     (if 0 < q_cnt lo \<and> 0 < q_cnt hi then lift2 (\<lambda>x y. \<bar>x - y\<bar>) (q_avg lo) (q_avg hi)
      else Fin 0)"

text \<open>
  The conversion of a count to \<^verbatim>\<open>double\<close> in the reference environment is the one of
  IEEE 754 in its default mode: a double keeps 53 significant bits, and a count with more
  bits is rounded to the nearest double, a tie going to the even one. \<open>excess_bits n\<close> is the
  number of bits that \<open>n\<close> has beyond 53.
\<close>

function excess_bits :: "nat \<Rightarrow> nat" where
  "excess_bits n = (if n < 2 ^ 53 then 0 else Suc (excess_bits (n div 2)))"
  by pat_completeness auto
termination
  by (relation "measure id") auto

declare excess_bits.simps [simp del]

definition round_to_53_bits :: "nat \<Rightarrow> nat" where
  "round_to_53_bits n =
     (let s = excess_bits n;
          q = n div 2 ^ s;
          r = n mod 2 ^ s
      in if 2 * r < 2 ^ s \<or> (2 * r = 2 ^ s \<and> even q) then q * 2 ^ s else (q + 1) * 2 ^ s)"

definition ref_size_to_double :: "nat \<Rightarrow> dbl" where
  "ref_size_to_double n = Fin (real (round_to_53_bits n))"

fun ref_rand :: "nat list \<Rightarrow> nat \<times> nat list" where
  "ref_rand [] = (0, [])"
| "ref_rand (r # rs) = (r, rs)"

definition ref_deps ::
  "(lp_t \<Rightarrow> int \<times> glp_status \<times> (nat \<Rightarrow> dbl)) \<Rightarrow> (dbl, nat list) deps" where
  "ref_deps solver =
     \<lparr>qvar_add = ref_qvar_add, avg_add = ref_avg_add, avg_merge = ref_avg_merge,
      approximate = ref_approximate,
      sf_new = Fin 0, sf_add = ref_sf_add, sf_max = (\<lambda>s. s), sf_reset = (\<lambda>s. Fin 0),
      fmul = lift2 (*), fadd = lift2 (+), fdiv = lift2 (/), fsqrt = lift1 sqrt,
      fpow = lift2 (powr), size_to_double = ref_size_to_double,
      rand = ref_rand, glp_create_prob = True, glp_simplex = solver\<rparr>"

text \<open>Two solvers: one that fails, one that reports the given values as the optimum.\<close>

definition solver_fails :: "lp_t \<Rightarrow> int \<times> glp_status \<times> (nat \<Rightarrow> dbl)" where
  "solver_fails lp = (0, GLP_NOFEAS, (\<lambda>j. Fin 0))"

definition solver_gives :: "dbl list \<Rightarrow> lp_t \<Rightarrow> int \<times> glp_status \<times> (nat \<Rightarrow> dbl)" where
  "solver_gives xs lp = (0, GLP_OPT, (\<lambda>j. if j < length xs then xs ! j else Fin 0))"

text \<open>A leaf with given statistics, and a split node, to write arenas down.\<close>

definition leaf_node :: "dbl \<Rightarrow> nat \<Rightarrow> 'sf node_t" where
  "leaf_node m c =
     node_new\<lparr>n_predictor := \<lparr>p_q = \<lparr>q_avg = m, q_cnt = c, q_variance = Fin 0\<rparr>,
                               p_cnt = c, p_data = None\<rparr>\<rparr>"

definition split_node :: "nat \<Rightarrow> dbl \<Rightarrow> nat \<Rightarrow> nat \<Rightarrow> 'sf node_t" where
  "split_node d b lo hi =
     node_new\<lparr>n_split := \<lparr>is_split = True, s_var = d, boundary = b, s_low = lo, s_high = hi\<rparr>\<rparr>"

definition entry :: "nat \<Rightarrow> nat \<Rightarrow> el_t" where
  "entry l n = \<lparr>e_label = l, e_nid = n\<rparr>"

section \<open>Words of the specification on rebalancing\<close>

text \<open>
  The three count conditions of the specification on a dimension: one side's midpoint count
  is at least 2, \<open>5 ^ min_count < max_count\<close>, and the larger count exceeds the count of the
  midpoint estimator.
\<close>

definition count_conditions :: "'sf qdata_t \<Rightarrow> bool" where
  "count_conditions dp =
     (2 \<le> max (a_cnt (lmid dp)) (a_cnt (hmid dp))
      \<and> 5 ^ min (a_cnt (lmid dp)) (a_cnt (hmid dp)) < max (a_cnt (lmid dp)) (a_cnt (hmid dp))
      \<and> a_cnt (midpoint dp) < max (a_cnt (lmid dp)) (a_cnt (hmid dp)))"

text \<open>
  The same three conditions with the second one as the code evaluates it: the power of
  doubles \<^verbatim>\<open>std::pow(5, min_count)\<close> is less than \<^verbatim>\<open>max_count\<close> converted to \<^verbatim>\<open>double\<close>.
\<close>

definition count_test :: "('sf, 'r) deps \<Rightarrow> 'sf qdata_t \<Rightarrow> bool" where
  "count_test D dp =
     (2 \<le> max (a_cnt (lmid dp)) (a_cnt (hmid dp))
      \<and> dlt (fpow D (Fin 5) (size_to_double D (min (a_cnt (lmid dp)) (a_cnt (hmid dp)))))
              (size_to_double D (max (a_cnt (lmid dp)) (a_cnt (hmid dp))))
      \<and> a_cnt (midpoint dp) < max (a_cnt (lmid dp)) (a_cnt (hmid dp)))"

text \<open>The combined low and high midpoint estimate of a dimension.\<close>

definition combined_mid :: "('sf, 'r) deps \<Rightarrow> 'sf qdata_t \<Rightarrow> avg_t" where
  "combined_mid D dp = avg_merge D (lmid dp) (hmid dp)"

text \<open>
  A rebalanced dimension: the combined estimate goes into the midpoint estimator, both
  sides' midpoint estimates become the combined estimate with half its count, and both
  sides' value statistics become the approximate merge of the two with half its count.
\<close>

definition recentred :: "('sf, 'r) deps \<Rightarrow> 'sf qdata_t \<Rightarrow> 'sf qdata_t" where
  "recentred D dp =
     dp\<lparr>hmid := (combined_mid D dp)\<lparr>a_cnt := a_cnt (combined_mid D dp) div 2\<rparr>,
        lmid := (combined_mid D dp)\<lparr>a_cnt := a_cnt (combined_mid D dp) div 2\<rparr>,
        midpoint := avg_merge D (midpoint dp) (combined_mid D dp),
        lowq := (approximate D (lowq dp) (highq dp))
                  \<lparr>q_cnt := q_cnt (approximate D (lowq dp) (highq dp)) div 2\<rparr>,
        highq := (approximate D (lowq dp) (highq dp))
                  \<lparr>q_cnt := q_cnt (approximate D (lowq dp) (highq dp)) div 2\<rparr>\<rparr>"

text \<open>The combined midpoint average differs from the current midpoint estimate.\<close>

definition midpoint_moves :: "('sf, 'r) deps \<Rightarrow> 'sf qdata_t \<Rightarrow> bool" where
  "midpoint_moves D dp = (\<not> deq (a_avg (combined_mid D dp)) (a_avg (midpoint dp)))"

section \<open>Words of the specification on the split decision\<close>

text \<open>A dimension is a candidate when its filter has reached the configured critical value.\<close>

definition is_candidate :: "('sf, 'r) deps \<Rightarrow> propts_t \<Rightarrow> 'sf qdata_t \<Rightarrow> bool" where
  "is_candidate D options dp = dge (sf_max D (splitfilter dp)) (filter_val options)"

text \<open>
  The per-dimension data of a leaf after the first loop, and the candidates among the
  dimensions \<open>0 .. dimen - 1\<close>, in index order.
\<close>

definition observed ::
  "('sf, 'r) deps \<Rightarrow> dbl list \<Rightarrow> dbl \<Rightarrow> dbl \<Rightarrow> propts_t \<Rightarrow> nat \<Rightarrow> 'sf qdata_t list
   \<Rightarrow> 'sf qdata_t list" where
  "observed D point nval delta options dimen data0 =
     map (\<lambda>i. if i < dimen then observe_dim D point nval delta options i (data0 ! i) else data0 ! i)
       [0..<length data0]"

definition candidates ::
  "('sf, 'r) deps \<Rightarrow> dbl list \<Rightarrow> dbl \<Rightarrow> dbl \<Rightarrow> propts_t \<Rightarrow> nat \<Rightarrow> 'sf qdata_t list
   \<Rightarrow> nat list" where
  "candidates D point nval delta options dimen data0 =
     filter (\<lambda>i. is_candidate D options (observed D point nval delta options dimen data0 ! i))
       [0..<dimen]"

text \<open>
  Reservoir sampling over a list of candidates, in order: the \<open>k\<close>-th candidate replaces
  the chosen one when the \<open>k\<close>-th draw is \<open>0\<close> modulo \<open>k\<close>. \<open>pick_from cnt cs rs svar\<close> starts
  with \<open>cnt\<close> candidates seen and \<open>svar\<close> chosen, and reads the draws from \<open>rs\<close>.
\<close>

fun pick_from :: "nat \<Rightarrow> nat list \<Rightarrow> nat list \<Rightarrow> nat \<Rightarrow> nat" where
  "pick_from cnt [] rs svar = svar"
| "pick_from cnt (c # cs) [] svar = svar"
| "pick_from cnt (c # cs) (r # rs) svar =
     pick_from (cnt + 1) cs rs (if r mod (cnt + 1) = 0 then c else svar)"

text \<open>The first \<open>n\<close> draws of a generator, and its state after them.\<close>

fun draws :: "('r \<Rightarrow> nat \<times> 'r) \<Rightarrow> nat \<Rightarrow> 'r \<Rightarrow> nat list" where
  "draws rnd 0 g = []"
| "draws rnd (Suc n) g = fst (rnd g) # draws rnd n (snd (rnd g))"

fun after_draws :: "('r \<Rightarrow> nat \<times> 'r) \<Rightarrow> nat \<Rightarrow> 'r \<Rightarrow> 'r" where
  "after_draws rnd 0 g = g"
| "after_draws rnd (Suc n) g = after_draws rnd n (snd (rnd g))"

text \<open>
  All the ways \<open>n\<close> draws can fall modulo \<open>1, 2, \<dots>, n\<close>: the lists \<open>[r\<^sub>1, \<dots>, r\<^sub>n]\<close> with
  \<open>r\<^sub>k < k\<close>. There are \<open>n!\<close> of them.
\<close>

fun draw_vectors :: "nat \<Rightarrow> nat list list" where
  "draw_vectors 0 = [[]]"
| "draw_vectors (Suc n) = concat (map (\<lambda>rs. map (\<lambda>r. rs @ [r]) [0..<Suc n]) (draw_vectors n))"

text \<open>
  What the code tests of the draws: the \<open>k\<close>-th draw modulo \<open>k\<close> (\<^verbatim>\<open>std::rand() % cnt\<close>).
\<close>

fun residues_from :: "nat \<Rightarrow> nat list \<Rightarrow> nat list" where
  "residues_from k [] = []"
| "residues_from k (r # rs) = r mod (k + 1) # residues_from (k + 1) rs"

definition residues :: "nat list \<Rightarrow> nat list" where
  "residues rs = residues_from 0 rs"

text \<open>The split dimension of the node \<open>org\<close> after an update, if the update made it a split node.\<close>

definition chosen_dimension :: "error + 'sf node_t list \<times> 'r \<Rightarrow> nat \<Rightarrow> nat option" where
  "chosen_dimension r org =
     (case r of
        Inl e \<Rightarrow> None
      | Inr (nodes', g') \<Rightarrow>
          if is_split (n_split (nodes' ! org)) then Some (s_var (n_split (nodes' ! org))) else None)"

section \<open>Concrete inputs\<close>

text \<open>
  A configuration with a given critical value, and the leaves and per-dimension data that
  a fresh one-dimensional leaf has after one observation.
\<close>

definition options_with :: "dbl \<Rightarrow> propts_t" where
  "options_with fv =
     \<lparr>q_learn_rate = 100, indefference = Fin 0, lower_t = Fin 0, upper_t = Fin 0,
      ks_limit = Fin 0, filter_rate = Fin 0, filter_val = fv\<rparr>"

definition low_data :: "dbl \<Rightarrow> nat \<Rightarrow> dbl \<Rightarrow> dbl qdata_t" where
  "low_data v c x =
     \<lparr>midpoint = avg_zero, lowq = \<lparr>q_avg = v, q_cnt = c, q_variance = Fin 0\<rparr>,
      highq = qvar_zero, lmid = \<lparr>a_avg = x, a_cnt = c\<rparr>, hmid = avg_zero,
      splitfilter = Fin 0\<rparr>"

definition seen_leaf :: "dbl \<Rightarrow> nat \<Rightarrow> dbl \<Rightarrow> dbl node_t" where
  "seen_leaf v c x =
     node_new\<lparr>n_predictor := \<lparr>p_q = \<lparr>q_avg = v, q_cnt = c, q_variance = Fin 0\<rparr>,
                               p_cnt = c, p_data = Some [low_data v c x]\<rparr>\<rparr>"

text \<open>The same leaf with two dimensions.\<close>

definition seen_leaf_two :: "dbl \<Rightarrow> nat \<Rightarrow> dbl \<Rightarrow> dbl node_t" where
  "seen_leaf_two v c x =
     node_new\<lparr>n_predictor := \<lparr>p_q = \<lparr>q_avg = v, q_cnt = c, q_variance = Fin 0\<rparr>,
                               p_cnt = c, p_data = Some [low_data v c x, low_data v c x]\<rparr>\<rparr>"

text \<open>The data of a dimension with one observation on each side.\<close>

definition both_data :: "dbl \<Rightarrow> dbl \<Rightarrow> dbl \<Rightarrow> dbl \<Rightarrow> dbl \<Rightarrow> dbl qdata_t" where
  "both_data vl xl vh xh ev =
     \<lparr>midpoint = avg_zero, lowq = \<lparr>q_avg = vl, q_cnt = 1, q_variance = Fin 0\<rparr>,
      highq = \<lparr>q_avg = vh, q_cnt = 1, q_variance = Fin 0\<rparr>,
      lmid = \<lparr>a_avg = xl, a_cnt = 1\<rparr>, hmid = \<lparr>a_avg = xh, a_cnt = 1\<rparr>,
      splitfilter = ev\<rparr>"

text \<open>
  A one-dimensional leaf that has only seen the value 1, given by the midpoint estimator
  and the two side midpoint estimates of its dimension. With the learning rate 100 of
  \<open>options_with\<close> the count of its value statistic stays at 101.
\<close>

definition sides_data :: "avg_t \<Rightarrow> avg_t \<Rightarrow> avg_t \<Rightarrow> dbl qdata_t" where
  "sides_data m l h =
     \<lparr>midpoint = m, lowq = \<lparr>q_avg = Fin 1, q_cnt = a_cnt l, q_variance = Fin 0\<rparr>,
      highq = \<lparr>q_avg = Fin 1, q_cnt = a_cnt h, q_variance = Fin 0\<rparr>,
      lmid = l, hmid = h, splitfilter = Fin 0\<rparr>"

definition sides_leaf :: "avg_t \<Rightarrow> avg_t \<Rightarrow> avg_t \<Rightarrow> dbl node_t" where
  "sides_leaf m l h =
     node_new\<lparr>n_predictor :=
       \<lparr>p_q = \<lparr>q_avg = Fin 1, q_cnt = min (a_cnt l + a_cnt h) 101, q_variance = Fin 0\<rparr>,
        p_cnt = a_cnt l + a_cnt h, p_data = Some [sides_data m l h]\<rparr>\<rparr>"

text \<open>The per-dimension data that the node \<open>org\<close> has after an update.\<close>

definition data_after :: "error + 'sf node_t list \<times> 'r \<Rightarrow> nat \<Rightarrow> 'sf qdata_t list option" where
  "data_after r org =
     (case r of Inl e \<Rightarrow> None | Inr (nodes', g') \<Rightarrow> p_data (n_predictor (nodes' ! org)))"

section \<open>Words of the specification on the best value\<close>

text \<open>
  The prediction of the leaf that a point reaches from a root (NaN where the descent gives
  no leaf), the finite leaf means of the trees whose labels are in a set, and the best of a
  set of finite values: its minimum or maximum, or the infinite sentinel when it is empty.
\<close>

definition leaf_mean :: "'sf node_t list \<Rightarrow> dbl list \<Rightarrow> nat \<Rightarrow> dbl" where
  "leaf_mean nodes point nid =
     (case get_leaf nodes point nid of
        Some (Inr n) \<Rightarrow> q_avg (p_q (n_predictor (nodes ! n)))
      | _ \<Rightarrow> NaN)"

definition finite_means :: "'sf tree \<Rightarrow> dbl list \<Rightarrow> nat set \<Rightarrow> real set" where
  "finite_means t point L =
     {x. \<exists>el \<in> set (t_mapping t). e_label el \<in> L
                                   \<and> leaf_mean (t_nodes t) point (e_nid el) = Fin x}"



text \<open>A call that observes the value 1 at the point 0 under a label.\<close>

definition demo_call :: "nat \<Rightarrow> call" where
  "demo_call l = \<lparr>c_label = l, c_point = [Fin 0], c_nval = Fin 1, c_delta = Fin 1,
                  c_options = options_with (Fin 1)\<rparr>"

section \<open>Properties\<close>

subsection \<open>Counting loops\<close>

lemma for_loop_done: "n \<le> i \<Longrightarrow> for_loop i n body s = s"
  by (subst for_loop.simps) simp

lemma for_loop_step: "i < n \<Longrightarrow> for_loop i n body s = for_loop (Suc i) n body (body i s)"
  by (subst for_loop.simps) simp

lemma for_loop_invariant:
  assumes "P i s"
    and "\<And>k s. i \<le> k \<Longrightarrow> k < n \<Longrightarrow> P k s \<Longrightarrow> P (Suc k) (body k s)"
    and "i \<le> n"
  shows "P n (for_loop i n body s)"
  using assms
proof (induction i n body s rule: for_loop.induct)
  case (1 i n body s)
  show ?case
  proof (cases "i < n")
    case True
    have "P n (for_loop (Suc i) n body (body i s))"
    proof (rule "1.IH"[OF True])
      show "P (Suc i) (body i s)" using "1.prems"(1,2) True by simp
      show "\<And>k s. Suc i \<le> k \<Longrightarrow> k < n \<Longrightarrow> P k s \<Longrightarrow> P (Suc k) (body k s)"
        using "1.prems"(2) by simp
      show "Suc i \<le> n" using True by simp
    qed
    then show ?thesis using True by (simp add: for_loop_step)
  next
    case False
    with "1.prems"(3) have "i = n" by simp
    with "1.prems"(1) show ?thesis by (simp add: for_loop_done)
  qed
qed

lemma for_loop_Suc: "i \<le> n \<Longrightarrow> for_loop i (Suc n) body s = body n (for_loop i n body s)"
proof (induction i n body s rule: for_loop.induct)
  case (1 i n body s)
  show ?case
  proof (cases "i < n")
    case True
    then have "for_loop i (Suc n) body s = for_loop (Suc i) (Suc n) body (body i s)"
      by (simp add: for_loop_step)
    also have "\<dots> = body n (for_loop (Suc i) n body (body i s))"
      using "1.IH"[OF True] True by simp
    also have "\<dots> = body n (for_loop i n body s)"
      using True by (simp add: for_loop_step)
    finally show ?thesis .
  next
    case False
    with "1.prems" have "i = n" by simp
    then show ?thesis by (simp add: for_loop_step for_loop_done)
  qed
qed

subsection \<open>Binary search\<close>

lemma lower_bound_from_bounds:
  "first \<le> lower_bound_from xs first len l \<and> lower_bound_from xs first len l \<le> first + len"
proof (induction xs first len l rule: lower_bound_from.induct)
  case (1 xs first len l)
  show ?case
  proof (cases "len = 0")
    case True
    then show ?thesis by (subst lower_bound_from.simps, subst lower_bound_from.simps) simp
  next
    case nz: False
    show ?thesis
    proof (cases "e_label (xs ! (first + len div 2)) < l")
      case lt: True
      have eq: "lower_bound_from xs first len l =
                lower_bound_from xs (first + len div 2 + 1) (len - len div 2 - 1) l"
        using nz lt by (subst lower_bound_from.simps) (simp add: Let_def)
      from "1.IH"(1)[OF nz refl refl lt] nz show ?thesis
        unfolding eq by linarith
    next
      case ge: False
      have eq: "lower_bound_from xs first len l = lower_bound_from xs first (len div 2) l"
        using nz ge by (subst lower_bound_from.simps) (simp add: Let_def)
      from "1.IH"(2)[OF nz refl refl ge] show ?thesis
        unfolding eq by linarith
    qed
  qed
qed

lemma lower_bound_le: "lower_bound xs l \<le> length xs"
  using lower_bound_from_bounds[of 0 xs "length xs" l] by (simp add: lower_bound_def)

text \<open>On a sorted index the search returns the partition point of the label.\<close>

lemma lower_bound_from_partition:
  assumes "sorted_wrt (<) (map e_label xs)" and "first + len \<le> length xs"
    and "\<forall>i < first. e_label (xs ! i) < l"
    and "\<forall>i. first + len \<le> i \<and> i < length xs \<longrightarrow> l \<le> e_label (xs ! i)"
  shows "(\<forall>i < lower_bound_from xs first len l. e_label (xs ! i) < l) \<and>
         (\<forall>i. lower_bound_from xs first len l \<le> i \<and> i < length xs \<longrightarrow> l \<le> e_label (xs ! i))"
  using assms
proof (induction xs first len l rule: lower_bound_from.induct)
  case (1 xs first len l)
  have mono: "\<And>i j. i \<le> j \<Longrightarrow> j < length xs \<Longrightarrow> e_label (xs ! i) \<le> e_label (xs ! j)"
  proof -
    fix i j assume ij: "i \<le> j" "j < length xs"
    show "e_label (xs ! i) \<le> e_label (xs ! j)"
    proof (cases "i = j")
      case False
      with ij have "i < j" by simp
      with "1.prems"(1) ij have "map e_label xs ! i < map e_label xs ! j"
        by (simp add: sorted_wrt_iff_nth_less)
      with ij show ?thesis by simp
    qed simp
  qed
  show ?case
  proof (cases "len = 0")
    case True
    then have "lower_bound_from xs first len l = first" by (subst lower_bound_from.simps) simp
    with "1.prems" True show ?thesis by simp
  next
    case nz: False
    let ?m = "first + len div 2"
    have mlt: "?m < length xs" using nz "1.prems"(2) by (simp add: less_le_trans)
    show ?thesis
    proof (cases "e_label (xs ! ?m) < l")
      case lt: True
      have eq: "lower_bound_from xs first len l =
                lower_bound_from xs (?m + 1) (len - len div 2 - 1) l"
        using nz lt by (subst lower_bound_from.simps) (simp add: Let_def)
      have a: "?m + 1 + (len - len div 2 - 1) \<le> length xs" using "1.prems"(2) nz by simp
      have b: "\<forall>i < ?m + 1. e_label (xs ! i) < l"
      proof (intro allI impI)
        fix i assume "i < ?m + 1"
        then have "i \<le> ?m" by simp
        from mono[OF this mlt] lt show "e_label (xs ! i) < l" by simp
      qed
      have c: "\<forall>i. ?m + 1 + (len - len div 2 - 1) \<le> i \<and> i < length xs \<longrightarrow> l \<le> e_label (xs ! i)"
        using "1.prems"(4) nz by simp
      from "1.IH"(1)[OF nz refl refl lt "1.prems"(1) a b c] show ?thesis unfolding eq .
    next
      case ge: False
      have eq: "lower_bound_from xs first len l = lower_bound_from xs first (len div 2) l"
        using nz ge by (subst lower_bound_from.simps) (simp add: Let_def)
      have a: "first + len div 2 \<le> length xs" using mlt by simp
      have c: "\<forall>i. first + len div 2 \<le> i \<and> i < length xs \<longrightarrow> l \<le> e_label (xs ! i)"
      proof (intro allI impI)
        fix i assume "?m \<le> i \<and> i < length xs"
        then have "e_label (xs ! ?m) \<le> e_label (xs ! i)" using mono by simp
        with ge show "l \<le> e_label (xs ! i)" by simp
      qed
      from "1.IH"(2)[OF nz refl refl ge "1.prems"(1) a "1.prems"(3) c] show ?thesis unfolding eq .
    qed
  qed
qed

lemma lower_bound_partition:
  assumes "sorted_wrt (<) (map e_label xs)"
  shows "(\<forall>i < lower_bound xs l. e_label (xs ! i) < l) \<and>
         (\<forall>i. lower_bound xs l \<le> i \<and> i < length xs \<longrightarrow> l \<le> e_label (xs ! i))"
  unfolding lower_bound_def
  by (rule lower_bound_from_partition[OF assms]) simp_all

subsection \<open>Descent\<close>

lemma descend_get_leaf:
  "descend nodes point current leaf \<Longrightarrow> get_leaf nodes point current = Some (Inr leaf)"
proof (induction rule: descend.induct)
  case (stop current)
  then show ?case by (subst get_leaf.simps) simp
next
  case (low current leaf)
  then show ?case by (subst get_leaf.simps) (simp add: Let_def)
next
  case (high current leaf)
  then show ?case by (subst get_leaf.simps) (simp add: Let_def)
qed

lemma get_leaf_descend_all:
  assumes "get_leaf nodes point current = Some r"
  shows "\<forall>leaf. r = Inr leaf \<longrightarrow> descend nodes point current leaf"
proof (rule get_leaf.raw_induct[where P = "\<lambda>nodes point current r.
         \<forall>leaf. r = Inr leaf \<longrightarrow> descend nodes point current leaf", OF _ assms])
  fix get_leaf' :: "'a node_t list \<Rightarrow> dbl list \<Rightarrow> nat \<Rightarrow> (error + nat) option"
  fix nodes point current r
  assume IH: "\<And>nodes point current r. get_leaf' nodes point current = Some r \<Longrightarrow>
                \<forall>leaf. r = Inr leaf \<longrightarrow> descend nodes point current leaf"
  assume eq: "(if length nodes \<le> current then Some (Inl OutOfBounds)
      else let s = n_split (nodes ! current)
           in if \<not> is_split s then Some (Inr current)
              else if length point \<le> s_var s then Some (Inl OutOfBounds)
              else if dle (point ! s_var s) (boundary s)
                   then get_leaf' nodes point (s_low s)
                   else get_leaf' nodes point (s_high s)) = Some r"
  show "\<forall>leaf. r = Inr leaf \<longrightarrow> descend nodes point current leaf"
  proof (cases "length nodes \<le> current")
    case True
    with eq show ?thesis by auto
  next
    case inb: False
    show ?thesis
    proof (cases "is_split (n_split (nodes ! current))")
      case False
      with inb eq show ?thesis
        by (auto simp: Let_def intro: descend.stop)
    next
      case sp: True
      show ?thesis
      proof (cases "length point \<le> s_var (n_split (nodes ! current))")
        case True
        with inb sp eq show ?thesis by (auto simp: Let_def)
      next
        case vb: False
        show ?thesis
        proof (cases "dle (point ! s_var (n_split (nodes ! current))) (boundary (n_split (nodes ! current)))")
          case True
          with inb sp vb eq
          have "get_leaf' nodes point (s_low (n_split (nodes ! current))) = Some r"
            by (simp add: Let_def)
          from IH[OF this] inb sp vb True show ?thesis
            by (auto intro: descend.low)
        next
          case False
          with inb sp vb eq
          have "get_leaf' nodes point (s_high (n_split (nodes ! current))) = Some r"
            by (simp add: Let_def)
          from IH[OF this] inb sp vb False show ?thesis
            by (auto intro: descend.high)
        qed
      qed
    qed
  qed
qed


lemma get_leaf_iff_descend:
  "get_leaf nodes point start = Some (Inr leaf) \<longleftrightarrow> descend nodes point start leaf"
  using descend_get_leaf get_leaf_descend_all by blast

lemma get_leaf_split_step:
  assumes "current < length nodes" and "is_split (n_split (nodes ! current))"
    and "s_var (n_split (nodes ! current)) < length point"
  shows "get_leaf nodes point current =
         (if dle (point ! s_var (n_split (nodes ! current))) (boundary (n_split (nodes ! current)))
          then get_leaf nodes point (s_low (n_split (nodes ! current)))
          else get_leaf nodes point (s_high (n_split (nodes ! current))))"
  using assms by (subst get_leaf.simps) (simp add: Let_def)

lemma deq_dle: "deq a b \<Longrightarrow> dle a b"
  by (cases a; cases b) (simp_all add: deq_def)

text \<open>On a well-formed arena the descent returns, at a leaf of the arena.\<close>

lemma get_leaf_total:
  assumes wf: "wf_nodes dimen nodes" and pt: "dimen \<le> length point"
  shows "current < length nodes \<Longrightarrow>
         \<exists>leaf. get_leaf nodes point current = Some (Inr leaf) \<and> leaf < length nodes
                \<and> \<not> is_split (n_split (nodes ! leaf))"
proof (induction "length nodes - current" arbitrary: current rule: less_induct)
  case less
  from wf less.prems have wfn: "wf_node dimen (length nodes) current (nodes ! current)"
    by (simp add: wf_nodes_def)
  show ?case
  proof (cases "is_split (n_split (nodes ! current))")
    case False
    with less.prems show ?thesis by (subst get_leaf.simps) simp
  next
    case sp: True
    let ?s = "n_split (nodes ! current)"
    from wfn sp have lo: "current < s_low ?s" "s_low ?s < length nodes"
      and hi: "current < s_high ?s" "s_high ?s < length nodes"
      and var: "s_var ?s < length point"
      using pt by (simp_all add: wf_node_def)
    have step: "get_leaf nodes point current =
         (if dle (point ! s_var ?s) (boundary ?s)
          then get_leaf nodes point (s_low ?s) else get_leaf nodes point (s_high ?s))"
      by (rule get_leaf_split_step[OF less.prems sp var])
    show ?thesis
    proof (cases "dle (point ! s_var ?s) (boundary ?s)")
      case True
      have "length nodes - s_low ?s < length nodes - current" using lo by simp
      from less.hyps[OF this lo(2)] True step show ?thesis by simp
    next
      case False
      have "length nodes - s_high ?s < length nodes - current" using hi by simp
      from less.hyps[OF this hi(2)] False step show ?thesis by simp
    qed
  qed
qed

subsection \<open>The claims on lookup and descent\<close>

text \<open>
  C6. For every label that is not in the label index, \<open>lookup\<close> returns the sentinel: mean
  NaN, count 0, variance 0. It returns it as a value, not as an error, and \<open>lookup\<close>
  returns nothing but this value: the tree is an argument it cannot change.
\<close>

theorem lookup_unknown_label:
  "l \<notin> e_label ` set (t_mapping t) \<Longrightarrow>
   lookup t l point = Some (Inr \<lparr>q_avg = NaN, q_cnt = 0, q_variance = Fin 0\<rparr>)"
proof -
  assume a: "l \<notin> e_label ` set (t_mapping t)"
  let ?r = "lower_bound (t_mapping t) l"
  have "?r = length (t_mapping t) \<or> e_label (t_mapping t ! ?r) \<noteq> l"
  proof (cases "?r = length (t_mapping t)")
    case False
    with lower_bound_le[of "t_mapping t" l] have "?r < length (t_mapping t)" by simp
    then have "t_mapping t ! ?r \<in> set (t_mapping t)" by simp
    with a have "e_label (t_mapping t ! ?r) \<noteq> l" by (metis imageI)
    then show ?thesis by simp
  qed simp
  then show ?thesis by (simp add: lookup_def Let_def)
qed

theorem lookup_unknown_label_witness:
  "5 \<notin> e_label ` set [entry 3 0, entry 7 1] \<and>
   lookup \<lparr>t_dimen = 1, t_nodes = [leaf_node (Fin 2) 1, leaf_node (Fin 4) 1 :: dbl node_t],
           t_mapping = [entry 3 0, entry 7 1]\<rparr> 5 [Fin 0]
     = Some (Inr \<lparr>q_avg = NaN, q_cnt = 0, q_variance = Fin 0\<rparr>)"
  using lookup_unknown_label[of 5
      "\<lparr>t_dimen = 1, t_nodes = [leaf_node (Fin 2) 1, leaf_node (Fin 4) 1 :: dbl node_t],
        t_mapping = [entry 3 0, entry 7 1]\<rparr>" "[Fin 0]"]
  by (simp add: entry_def)

text \<open>
  C8. A descent from a start ends at a leaf exactly when the walk of the specification does
  (at each internal node the low child is followed if and only if the coordinate of the
  point in the split dimension is at most the boundary); on a well-formed arena it always
  ends; and a point whose coordinate equals the boundary is routed to the low child.
\<close>

theorem get_leaf_low_inclusive:
  "(get_leaf nodes point start = Some (Inr leaf) \<longleftrightarrow> descend nodes point start leaf) \<and>
   (wf_nodes dimen nodes \<and> dimen \<le> length point \<and> start < length nodes \<longrightarrow>
      (\<exists>leaf. get_leaf nodes point start = Some (Inr leaf) \<and> leaf < length nodes
              \<and> \<not> is_split (n_split (nodes ! leaf)))) \<and>
   (current < length nodes \<and> is_split (n_split (nodes ! current))
      \<and> s_var (n_split (nodes ! current)) < length point \<longrightarrow>
      get_leaf nodes point current =
        (if dle (point ! s_var (n_split (nodes ! current))) (boundary (n_split (nodes ! current)))
         then get_leaf nodes point (s_low (n_split (nodes ! current)))
         else get_leaf nodes point (s_high (n_split (nodes ! current))))) \<and>
   (current < length nodes \<and> is_split (n_split (nodes ! current))
      \<and> s_var (n_split (nodes ! current)) < length point
      \<and> deq (point ! s_var (n_split (nodes ! current))) (boundary (n_split (nodes ! current))) \<longrightarrow>
      get_leaf nodes point current = get_leaf nodes point (s_low (n_split (nodes ! current))))"
  using get_leaf_iff_descend[of nodes point start leaf]
    get_leaf_total[of dimen nodes point start]
    get_leaf_split_step[of current nodes point]
    deq_dle[of "point ! s_var (n_split (nodes ! current))" "boundary (n_split (nodes ! current))"]
  by auto

theorem get_leaf_low_inclusive_witness:
  "wf_nodes 1 [split_node 0 (Fin (1/2)) 1 2, leaf_node (Fin 10) 3, leaf_node (Fin 0) 4 :: dbl node_t] \<and>
   descend [split_node 0 (Fin (1/2)) 1 2, leaf_node (Fin 10) 3, leaf_node (Fin 0) 4 :: dbl node_t] [Fin (1/2)] 0 1 \<and>
   descend [split_node 0 (Fin (1/2)) 1 2, leaf_node (Fin 10) 3, leaf_node (Fin 0) 4 :: dbl node_t] [Fin (3/4)] 0 2 \<and>
   get_leaf [split_node 0 (Fin (1/2)) 1 2, leaf_node (Fin 10) 3, leaf_node (Fin 0) 4 :: dbl node_t] [Fin (1/2)] 0
     = get_leaf [split_node 0 (Fin (1/2)) 1 2, leaf_node (Fin 10) 3, leaf_node (Fin 0) 4 :: dbl node_t] [Fin (1/2)] 1"
proof -
  let ?nodes = "[split_node 0 (Fin (1/2)) 1 2, leaf_node (Fin 10) 3, leaf_node (Fin 0) 4 :: dbl node_t]"
  have wf: "wf_nodes 1 ?nodes"
    by (simp add: wf_nodes_def wf_node_def split_node_def leaf_node_def node_new_def less_Suc_eq
        numeral_3_eq_3)
  have a: "get_leaf ?nodes [Fin (1/2)] 0 = Some (Inr 1)"
    by (simp add: get_leaf.simps split_node_def leaf_node_def node_new_def Let_def)
  have b: "get_leaf ?nodes [Fin (3/4)] 0 = Some (Inr 2)"
    by (simp add: get_leaf.simps split_node_def leaf_node_def node_new_def Let_def)
  have c: "0 < length ?nodes \<and> is_split (n_split (?nodes ! 0))
      \<and> s_var (n_split (?nodes ! 0)) < length [Fin (1/2)]
      \<and> deq ([Fin (1/2)] ! s_var (n_split (?nodes ! 0))) (boundary (n_split (?nodes ! 0)))"
    by (simp add: split_node_def node_new_def deq_def)
  have d: "s_low (n_split (?nodes ! 0)) = 1" by (simp add: split_node_def node_new_def)
  show ?thesis
    using wf a b c get_leaf_low_inclusive[of ?nodes "[Fin (1/2)]" 0 1 1 0]
      get_leaf_low_inclusive[of ?nodes "[Fin (3/4)]" 0 2 1 0]
    unfolding d by blast
qed

subsection \<open>The rebalancing loop\<close>

lemma rebalance_dim_eq:
  "rebalance_dim D i (data, rezero) =
     (if count_test D (data ! i) \<and> midpoint_moves D (data ! i)
      then (data[i := recentred D (data ! i)], True) else (data, rezero))"
  by (simp add: rebalance_dim_def count_test_def midpoint_moves_def recentred_def
      combined_mid_def Let_def max.commute min.commute)

text \<open>
  Where the two counts have doubles of their own and the power is exact, the test of the
  code is the comparison of the natural numbers.
\<close>

lemma count_test_exact:
  assumes "size_to_double D (min (a_cnt (lmid dp)) (a_cnt (hmid dp)))
             = Fin (real (min (a_cnt (lmid dp)) (a_cnt (hmid dp))))"
    and "size_to_double D (max (a_cnt (lmid dp)) (a_cnt (hmid dp)))
             = Fin (real (max (a_cnt (lmid dp)) (a_cnt (hmid dp))))"
    and "fpow D (Fin 5) (Fin (real (min (a_cnt (lmid dp)) (a_cnt (hmid dp)))))
             = Fin (5 ^ min (a_cnt (lmid dp)) (a_cnt (hmid dp)))"
  shows "count_test D dp = count_conditions dp"
  unfolding count_test_def count_conditions_def assms
  by (simp only: dlt.simps) (metis of_nat_less_iff of_nat_numeral of_nat_power)

lemma rebalance_loop:
  assumes "k \<le> length data"
  shows "for_loop 0 k (rebalance_dim D) (data, False) =
           (map (\<lambda>i. if i < k \<and> count_test D (data ! i) \<and> midpoint_moves D (data ! i)
                      then recentred D (data ! i) else data ! i) [0..<length data],
            \<exists>i<k. count_test D (data ! i) \<and> midpoint_moves D (data ! i))"
  using assms
proof (induction k)
  case 0
  show ?case by (simp add: for_loop_done map_nth)
next
  case (Suc k)
  let ?mv = "\<lambda>i. count_test D (data ! i) \<and> midpoint_moves D (data ! i)"
  let ?d = "\<lambda>k. map (\<lambda>i. if i < k \<and> ?mv i then recentred D (data ! i) else data ! i) [0..<length data]"
  from Suc have IH: "for_loop 0 k (rebalance_dim D) (data, False) = (?d k, \<exists>i<k. ?mv i)"
    and klt: "k < length data" by simp_all
  have nth: "?d k ! k = data ! k" using klt by simp
  have upd: "(?d k)[k := recentred D (data ! k)] =
             map (\<lambda>i. if i < Suc k \<and> ?mv i \<or> i = k then recentred D (data ! i) else data ! i) [0..<length data]"
    using klt by (intro nth_equalityI) (auto simp: nth_list_update less_Suc_eq)
  have "for_loop 0 (Suc k) (rebalance_dim D) (data, False) =
        rebalance_dim D k (?d k, \<exists>i<k. ?mv i)"
    by (simp add: for_loop_Suc IH)
  also have "\<dots> = (?d (Suc k), \<exists>i<Suc k. ?mv i)"
  proof (cases "?mv k")
    case True
    then have "?d (Suc k) = (?d k)[k := recentred D (data ! k)]"
      unfolding upd by (intro nth_equalityI) (auto simp: less_Suc_eq)
    with True show ?thesis by (simp only: rebalance_dim_eq nth) (auto simp: less_Suc_eq)
  next
    case False
    then have "?d (Suc k) = ?d k" by (intro nth_equalityI) (auto simp: less_Suc_eq)
    moreover from False have "(\<exists>i<Suc k. ?mv i) = (\<exists>i<k. ?mv i)" by (auto simp: less_Suc_eq)
    ultimately show ?thesis using False by (simp only: rebalance_dim_eq nth) auto
  qed
  finally show ?case .
qed

lemma reset_loop:
  assumes "k \<le> length data"
  shows "for_loop 0 k (reset_filter D) data =
           map (\<lambda>i. if i < k then (data ! i)\<lparr>splitfilter := sf_reset D (splitfilter (data ! i))\<rparr>
                      else data ! i) [0..<length data]"
  using assms
proof (induction k)
  case 0
  show ?case by (simp add: for_loop_done map_nth)
next
  case (Suc k)
  then have IH: "for_loop 0 k (reset_filter D) data =
           map (\<lambda>i. if i < k then (data ! i)\<lparr>splitfilter := sf_reset D (splitfilter (data ! i))\<rparr>
                      else data ! i) [0..<length data]"
    and klt: "k < length data" by simp_all
  have "for_loop 0 (Suc k) (reset_filter D) data = reset_filter D k (for_loop 0 k (reset_filter D) data)"
    by (simp add: for_loop_Suc)
  also have "\<dots> = map (\<lambda>i. if i < Suc k
                      then (data ! i)\<lparr>splitfilter := sf_reset D (splitfilter (data ! i))\<rparr>
                      else data ! i) [0..<length data]"
    unfolding IH reset_filter_def using klt
    by (intro nth_equalityI) (auto simp: nth_list_update less_Suc_eq)
  finally show ?case .
qed

text \<open>What the rebalancing branch makes of each dimension.\<close>

lemma rebalance_nth:
  assumes "dimen \<le> length data" and "i < dimen"
  shows "rebalance D dimen data ! i =
           (if \<exists>k<dimen. count_test D (data ! k) \<and> midpoint_moves D (data ! k)
            then (if count_test D (data ! i) \<and> midpoint_moves D (data ! i)
                  then recentred D (data ! i) else data ! i)
                 \<lparr>splitfilter := sf_reset D (splitfilter (data ! i))\<rparr>
            else data ! i)"
proof -
  let ?mv = "\<lambda>i. count_test D (data ! i) \<and> midpoint_moves D (data ! i)"
  let ?d = "map (\<lambda>i. if i < dimen \<and> ?mv i then recentred D (data ! i) else data ! i) [0..<length data]"
  have len: "dimen \<le> length ?d" using assms by simp
  have i: "i < length data" using assms by simp
  have sf: "splitfilter (recentred D (data ! i)) = splitfilter (data ! i)"
    by (simp add: recentred_def)
  show ?thesis
  proof (cases "\<exists>k<dimen. ?mv k")
    case True
    from True have ex: "(\<exists>k<dimen. ?mv k) = True" by blast
    have "rebalance D dimen data = for_loop 0 dimen (reset_filter D) ?d"
      unfolding rebalance_def rebalance_loop[OF assms(1)] ex by simp
    then show ?thesis using True i assms(2) sf
      by (simp add: reset_loop[OF len])
  next
    case False
    from False have ex: "(\<exists>k<dimen. ?mv k) = False" by blast
    have "rebalance D dimen data = ?d"
      unfolding rebalance_def rebalance_loop[OF assms(1)] ex by simp
    with False i assms(2) show ?thesis by auto
  qed
qed

lemma length_rebalance:
  assumes "dimen \<le> length data"
  shows "length (rebalance D dimen data) = length data"
proof -
  let ?d = "map (\<lambda>i. if i < dimen \<and> count_test D (data ! i) \<and> midpoint_moves D (data ! i)
                   then recentred D (data ! i) else data ! i) [0..<length data]"
  have len: "dimen \<le> length ?d" using assms by simp
  show ?thesis
    unfolding rebalance_def rebalance_loop[OF assms] by (simp add: reset_loop[OF len])
qed

subsection \<open>Reservoir sampling\<close>

lemma length_draws: "length (draws rnd n g) = n"
  by (induction n arbitrary: g) simp_all

lemma draws_Suc_snoc: "draws rnd (Suc n) g = draws rnd n g @ [fst (rnd (after_draws rnd n g))]"
  by (induction n arbitrary: g) simp_all

lemma after_draws_Suc_snoc: "after_draws rnd (Suc n) g = snd (rnd (after_draws rnd n g))"
  by (induction n arbitrary: g) simp_all

lemma pick_from_snoc:
  "length rs = length cs \<Longrightarrow>
   pick_from c0 (cs @ [c]) (rs @ [r]) s =
     (if r mod (c0 + length cs + 1) = 0 then c else pick_from c0 cs rs s)"
proof (induction c0 cs rs s rule: pick_from.induct)
  case (1 cnt rs svar)
  then show ?case by simp
next
  case (2 cnt c cs svar)
  then show ?case by simp
next
  case (3 cnt c' cs r' rs svar)
  then show ?case by simp
qed

lemma pick_from_mem:
  "length rs = length cs \<Longrightarrow> pick_from c0 cs rs s = s \<or> pick_from c0 cs rs s \<in> set cs"
proof (induction c0 cs rs s rule: pick_from.induct)
  case (3 cnt c cs r rs svar)
  then show ?case by auto
qed simp_all

lemma pick_from_0_mem:
  assumes "length rs = length cs" and "cs \<noteq> []"
  shows "pick_from 0 cs rs s \<in> set cs"
proof -
  from assms obtain c cs' r rs' where cs: "cs = c # cs'" and rs: "rs = r # rs'"
    and len: "length rs' = length cs'"
    by (cases cs; cases rs) auto
  have "pick_from 0 cs rs s = pick_from 1 cs' rs' c" by (simp add: cs rs)
  with pick_from_mem[OF len, of 1 c] show ?thesis by (auto simp: cs)
qed

subsection \<open>The first loop of the update of a leaf\<close>

lemma update_dim_eq:
  "update_dim D point nval delta options i (data, svar, cnt, g) =
     (if is_candidate D options (observe_dim D point nval delta options i (data ! i))
      then (data[i := observe_dim D point nval delta options i (data ! i)],
            (if fst (rand D g) mod (cnt + 1) = 0 then i else svar), cnt + 1, snd (rand D g))
      else (data[i := observe_dim D point nval delta options i (data ! i)], svar, cnt, g))"
  by (simp add: update_dim_def is_candidate_def Let_def split: prod.splits)

lemma update_loop:
  assumes "k \<le> length data0"
  shows "for_loop 0 k (update_dim D point nval delta options) (data0, s0, 0, g) =
     (map (\<lambda>i. if i < k then observe_dim D point nval delta options i (data0 ! i) else data0 ! i)
        [0..<length data0],
      pick_from 0
        (filter (\<lambda>i. is_candidate D options (observe_dim D point nval delta options i (data0 ! i))) [0..<k])
        (draws (rand D)
          (length (filter (\<lambda>i. is_candidate D options (observe_dim D point nval delta options i (data0 ! i))) [0..<k])) g)
        s0,
      length (filter (\<lambda>i. is_candidate D options (observe_dim D point nval delta options i (data0 ! i))) [0..<k]),
      after_draws (rand D)
        (length (filter (\<lambda>i. is_candidate D options (observe_dim D point nval delta options i (data0 ! i))) [0..<k])) g)"
  using assms
proof (induction k)
  case 0
  show ?case by (simp add: for_loop_done map_nth)
next
  case (Suc k)
  let ?ob = "\<lambda>i. observe_dim D point nval delta options i (data0 ! i)"
  let ?obs = "\<lambda>k. map (\<lambda>i. if i < k then ?ob i else data0 ! i) [0..<length data0]"
  let ?cs = "\<lambda>k. filter (\<lambda>i. is_candidate D options (?ob i)) [0..<k]"
  let ?n = "length (?cs k)"
  from Suc have IH: "for_loop 0 k (update_dim D point nval delta options) (data0, s0, 0, g) =
      (?obs k, pick_from 0 (?cs k) (draws (rand D) ?n g) s0, ?n, after_draws (rand D) ?n g)"
    and klt: "k < length data0" by simp_all
  have nth: "?obs k ! k = data0 ! k" using klt by simp
  have upd: "(?obs k)[k := ?ob k] = ?obs (Suc k)"
    using klt by (intro nth_equalityI) (auto simp: nth_list_update less_Suc_eq)
  have step: "for_loop 0 (Suc k) (update_dim D point nval delta options) (data0, s0, 0, g) =
      update_dim D point nval delta options k
        (?obs k, pick_from 0 (?cs k) (draws (rand D) ?n g) s0, ?n, after_draws (rand D) ?n g)"
    by (simp add: for_loop_Suc IH)
  show ?case
  proof (cases "is_candidate D options (?ob k)")
    case True
    then have cs: "?cs (Suc k) = ?cs k @ [k]" by simp
    have len: "length (?cs (Suc k)) = Suc ?n" unfolding cs by simp
    have pick: "pick_from 0 (?cs (Suc k)) (draws (rand D) (Suc ?n) g) s0 =
        (if fst (rand D (after_draws (rand D) ?n g)) mod (?n + 1) = 0 then k
         else pick_from 0 (?cs k) (draws (rand D) ?n g) s0)"
      unfolding cs draws_Suc_snoc
      by (subst pick_from_snoc) (simp_all add: length_draws)
    show ?thesis
      unfolding step update_dim_eq nth upd len pick after_draws_Suc_snoc using True by simp
  next
    case False
    then have cs: "?cs (Suc k) = ?cs k" by simp
    show ?thesis
      unfolding step update_dim_eq nth upd cs using False by simp
  qed
qed

subsection \<open>The two branches of the update of a leaf\<close>

lemma update_loop_length:
  assumes "dimen \<le> length data0"
    and "for_loop 0 dimen (update_dim D point nval delta options) (data0, s0, 0, g) = (data, svar, cnt, g')"
  shows "length data = length data0"
  using assms(2) unfolding update_loop[OF assms(1)] by auto

lemma seed_q_pos: "0 < q_cnt oq \<Longrightarrow> 0 < q_cnt (seed_q oq q)"
  by (simp add: seed_q_def)

lemma seed_loop_length:
  "length (fst (for_loop 0 dimen (seed_midpoint D tmp svar) (ldata, hdata))) = length ldata \<and>
   length (snd (for_loop 0 dimen (seed_midpoint D tmp svar) (ldata, hdata))) = length hdata"
proof (rule for_loop_invariant[where P = "\<lambda>k s. length (fst s) = length ldata \<and> length (snd s) = length hdata"])
  show "length (fst (ldata, hdata)) = length ldata \<and> length (snd (ldata, hdata)) = length hdata"
    by simp
  show "\<And>k s. 0 \<le> k \<Longrightarrow> k < dimen \<Longrightarrow>
          length (fst s) = length ldata \<and> length (snd s) = length hdata \<Longrightarrow>
          length (fst (seed_midpoint D tmp svar k s)) = length ldata \<and>
          length (snd (seed_midpoint D tmp svar k s)) = length hdata"
    by (auto simp: seed_midpoint_def Let_def split: prod.splits)
  show "0 \<le> dimen" by simp
qed

lemma split_leaf_eq:
  assumes "0 < q_cnt (p_q (n_predictor this))"
  shows "split_leaf D dimen nodes org this tmp svar =
     Inr (nodes[org := (set_correction D dimen tmp
                          (this\<lparr>n_split := \<lparr>is_split = True, s_var = svar,
                                             boundary = a_avg (midpoint (tmp ! svar)),
                                             s_low = length nodes, s_high = length nodes + 1\<rparr>\<rparr>))
                       \<lparr>n_predictor := (n_predictor this)\<lparr>p_data := None\<rparr>\<rparr>]
          @ [new_leaf (seed_q (p_q (n_predictor this)) (lowq (tmp ! svar)))
               (fst (for_loop 0 dimen (seed_midpoint D tmp svar)
                      (replicate dimen (qdata_new D), replicate dimen (qdata_new D)))),
             new_leaf (seed_q (p_q (n_predictor this)) (highq (tmp ! svar)))
               (snd (for_loop 0 dimen (seed_midpoint D tmp svar)
                      (replicate dimen (qdata_new D), replicate dimen (qdata_new D))))])"
proof -
  have pred: "\<And>n. n_predictor (set_correction D dimen tmp n) = n_predictor n"
    by (simp add: set_correction_def split: prod.splits)
  have "q_cnt (seed_q (p_q (n_predictor this)) (highq (tmp ! svar))) \<noteq> 0"
    "q_cnt (seed_q (p_q (n_predictor this)) (lowq (tmp ! svar))) \<noteq> 0"
    using seed_q_pos[OF assms] by (simp_all add: less_not_refl2)
  then show ?thesis
    by (simp add: split_leaf_def Let_def pred split: prod.splits)
qed

text \<open>The update of a leaf, once the first loop is known.\<close>

lemma node_update_eq:
  assumes "\<not> is_split (n_split (nodes ! org))"
    and "data0 = (case p_data (n_predictor (nodes ! org)) of
                    None \<Rightarrow> replicate dimen (qdata_new D) | Some d \<Rightarrow> d)"
    and "dimen \<le> length point" and "dimen \<le> length data0"
    and "for_loop 0 dimen (update_dim D point nval delta options) (data0, 0, 0, g) = (data, svar, cnt, g')"
  shows "node_update D point dimen nval nodes org delta options g =
     (if 0 < cnt
      then (case split_leaf D dimen nodes org
                  ((nodes ! org)\<lparr>n_predictor :=
                     \<lparr>p_q = qvar_add D ((p_q (n_predictor (nodes ! org)))
                               \<lparr>q_cnt := min (q_cnt (p_q (n_predictor (nodes ! org)))) (q_learn_rate options)\<rparr>) nval,
                      p_cnt = p_cnt (n_predictor (nodes ! org)) + 1, p_data = Some data\<rparr>\<rparr>) data svar of
              Inl e \<Rightarrow> Inl e
            | Inr nodes' \<Rightarrow> Inr (nodes', g'))
      else Inr (nodes[org := (nodes ! org)\<lparr>n_predictor :=
                     \<lparr>p_q = qvar_add D ((p_q (n_predictor (nodes ! org)))
                               \<lparr>q_cnt := min (q_cnt (p_q (n_predictor (nodes ! org)))) (q_learn_rate options)\<rparr>) nval,
                      p_cnt = p_cnt (n_predictor (nodes ! org)) + 1,
                      p_data = Some (rebalance D dimen data)\<rparr>\<rparr>], g'))"
  using assms(1,3,4) assms(5)[unfolded assms(2)]
  unfolding node_update_def Let_def assms(2)
  by (simp add: not_less)

subsection \<open>Evaluations on the concrete inputs\<close>

lemma ex_loop_same:
  "for_loop 0 1 (update_dim (ref_deps solver_fails) [Fin 0] (Fin 1) (Fin 1) (options_with (Fin 1)))
     ([low_data (Fin 1) 1 (Fin 0)], 0, 0, []) = ([low_data (Fin 1) 2 (Fin 0)], 0, 0, [])"
  by (simp add: for_loop.simps update_dim_def observe_dim_def ref_deps_def low_data_def
      options_with_def ref_qvar_add_def ref_avg_add_def ref_sf_add_def dge_def avg_zero_def
      qvar_zero_def Let_def)

lemma ref_size_to_double_small: "n < 2 ^ 53 \<Longrightarrow> ref_size_to_double n = Fin (real n)"
  by (simp add: ref_size_to_double_def round_to_53_bits_def excess_bits.simps[of n])

lemma ref_size_to_double_big: "ref_size_to_double 59604644775390626 = Fin 59604644775390624"
  by (simp add: ref_size_to_double_def round_to_53_bits_def excess_bits.simps)

lemma ex_count_conditions: "count_conditions (low_data (Fin 1) 2 (Fin 0))"
  by (simp add: count_conditions_def low_data_def avg_zero_def)

lemma ex_count_test: "count_test (ref_deps solver_fails) (low_data (Fin 1) 2 (Fin 0))"
  by (simp add: count_test_def low_data_def avg_zero_def ref_deps_def ref_size_to_double_small)

lemma ex_combined_mid:
  "combined_mid (ref_deps solver_fails) (low_data (Fin 1) 2 (Fin 0)) = \<lparr>a_avg = Fin 0, a_cnt = 2\<rparr>"
  by (simp add: combined_mid_def ref_deps_def ref_avg_merge_def low_data_def avg_zero_def)

lemma ex_not_moves: "\<not> midpoint_moves (ref_deps solver_fails) (low_data (Fin 1) 2 (Fin 0))"
  by (simp add: midpoint_moves_def ex_combined_mid deq_def) (simp add: low_data_def avg_zero_def)

lemma ex_rebalance_same:
  "rebalance (ref_deps solver_fails) 1 [low_data (Fin 1) 2 (Fin 0)] = [low_data (Fin 1) 2 (Fin 0)]"
  using ex_not_moves by (simp add: rebalance_def for_loop.simps rebalance_dim_eq)

lemma ex_node_update_same:
  "node_update (ref_deps solver_fails) [Fin 0] 1 (Fin 1) [seen_leaf (Fin 1) 1 (Fin 0)] 0 (Fin 1)
       (options_with (Fin 1)) []
     = Inr ([seen_leaf (Fin 1) 2 (Fin 0)], [])"
proof -
  let ?D = "ref_deps solver_fails"
  let ?nodes = "[seen_leaf (Fin 1) 1 (Fin 0)]"
  have a1: "\<not> is_split (n_split (?nodes ! 0))" by (simp add: seen_leaf_def node_new_def)
  have a2: "[low_data (Fin 1) 1 (Fin 0)] =
     (case p_data (n_predictor (?nodes ! 0)) of None \<Rightarrow> replicate 1 (qdata_new ?D) | Some d \<Rightarrow> d)"
    by (simp add: seen_leaf_def node_new_def)
  have q: "qvar_add ?D ((p_q (n_predictor (?nodes ! 0)))
              \<lparr>q_cnt := min (q_cnt (p_q (n_predictor (?nodes ! 0)))) (q_learn_rate (options_with (Fin 1)))\<rparr>) (Fin 1)
           = \<lparr>q_avg = Fin 1, q_cnt = 2, q_variance = Fin 0\<rparr>"
    by (simp add: seen_leaf_def node_new_def ref_deps_def ref_qvar_add_def options_with_def)
  note eq = node_update_eq[where D = ?D and nodes = ?nodes and org = 0 and dimen = 1,
        OF a1 a2 _ _ ex_loop_same]
  show ?thesis
    using eq unfolding ex_rebalance_same q by (simp add: seen_leaf_def node_new_def)
qed

lemma ex_loop_moves:
  "for_loop 0 1 (update_dim (ref_deps solver_fails) [Fin (- 1)] (Fin 1) (Fin 1) (options_with (Fin 1)))
     ([low_data (Fin 1) 1 (Fin (- 1))], 0, 0, []) = ([low_data (Fin 1) 2 (Fin (- 1))], 0, 0, [])"
  by (simp add: for_loop.simps update_dim_def observe_dim_def ref_deps_def low_data_def
      options_with_def ref_qvar_add_def ref_avg_add_def ref_sf_add_def dge_def avg_zero_def
      qvar_zero_def Let_def)

lemma ex_moves:
  "count_test (ref_deps solver_fails) (low_data (Fin 1) 2 (Fin (- 1)))
   \<and> midpoint_moves (ref_deps solver_fails) (low_data (Fin 1) 2 (Fin (- 1)))"
  by (simp add: count_test_def midpoint_moves_def combined_mid_def ref_deps_def
      ref_avg_merge_def low_data_def avg_zero_def deq_def ref_size_to_double_small)

lemma ex_recentred:
  "(recentred (ref_deps solver_fails) (low_data (Fin 1) 2 (Fin (- 1))))
     \<lparr>splitfilter := sf_reset (ref_deps solver_fails) (splitfilter (low_data (Fin 1) 2 (Fin (- 1))))\<rparr>
   = \<lparr>midpoint = \<lparr>a_avg = Fin (- 1), a_cnt = 2\<rparr>,
      lowq = \<lparr>q_avg = Fin 1, q_cnt = 1, q_variance = Fin 0\<rparr>,
      highq = \<lparr>q_avg = Fin 1, q_cnt = 1, q_variance = Fin 0\<rparr>,
      lmid = \<lparr>a_avg = Fin (- 1), a_cnt = 1\<rparr>, hmid = \<lparr>a_avg = Fin (- 1), a_cnt = 1\<rparr>,
      splitfilter = Fin 0\<rparr>"
  by (simp add: recentred_def combined_mid_def ref_deps_def ref_avg_merge_def ref_approximate_def
      low_data_def avg_zero_def qvar_zero_def)

text \<open>
  A leaf whose dimension has the midpoint estimate 4 with count 1, five observations at
  the coordinate 1 and one at 8, observes the coordinate 1 once more; and a leaf with 24
  observations at 1 and \<open>5 ^ 24\<close> at 8 observes the coordinate 8 once more.
\<close>

lemma ex_loop_sides_low:
  "for_loop 0 1 (update_dim (ref_deps solver_fails) [Fin 1] (Fin 1) (Fin 1) (options_with (Fin 1)))
     ([sides_data \<lparr>a_avg = Fin 4, a_cnt = 1\<rparr> \<lparr>a_avg = Fin 1, a_cnt = 5\<rparr> \<lparr>a_avg = Fin 8, a_cnt = 1\<rparr>], 0, 0, [])
   = ([sides_data \<lparr>a_avg = Fin 4, a_cnt = 1\<rparr> \<lparr>a_avg = Fin 1, a_cnt = 6\<rparr> \<lparr>a_avg = Fin 8, a_cnt = 1\<rparr>], 0, 0, [])"
  by (simp add: for_loop.simps update_dim_def observe_dim_def ref_deps_def sides_data_def
      options_with_def ref_qvar_add_def ref_avg_add_def ref_sf_add_def dge_def Let_def)

lemma ex_loop_sides_high:
  "for_loop 0 1 (update_dim (ref_deps solver_fails) [Fin 8] (Fin 1) (Fin 1) (options_with (Fin 1)))
     ([sides_data \<lparr>a_avg = Fin 4, a_cnt = 1\<rparr> \<lparr>a_avg = Fin 1, a_cnt = 24\<rparr> \<lparr>a_avg = Fin 8, a_cnt = 5 ^ 24\<rparr>], 0, 0, [])
   = ([sides_data \<lparr>a_avg = Fin 4, a_cnt = 1\<rparr> \<lparr>a_avg = Fin 1, a_cnt = 24\<rparr> \<lparr>a_avg = Fin 8, a_cnt = 5 ^ 24 + 1\<rparr>], 0, 0, [])"
  by (simp add: for_loop.simps update_dim_def observe_dim_def ref_deps_def sides_data_def
      options_with_def ref_qvar_add_def ref_avg_add_def ref_sf_add_def dge_def Let_def)

lemma ex_sides_rebalanced:
  "rebalance (ref_deps solver_fails) 1
     [sides_data \<lparr>a_avg = Fin 4, a_cnt = 1\<rparr> \<lparr>a_avg = Fin 1, a_cnt = 6\<rparr> \<lparr>a_avg = Fin 8, a_cnt = 1\<rparr>]
   = [sides_data \<lparr>a_avg = Fin (9 / 4), a_cnt = 8\<rparr> \<lparr>a_avg = Fin 2, a_cnt = 3\<rparr> \<lparr>a_avg = Fin 2, a_cnt = 3\<rparr>]"
  by (simp add: rebalance_def for_loop.simps rebalance_dim_def reset_filter_def ref_deps_def
      sides_data_def ref_avg_merge_def ref_approximate_def ref_size_to_double_small deq_def Let_def)

lemma ex_sides_kept:
  "rebalance (ref_deps solver_fails) 1
     [sides_data \<lparr>a_avg = Fin 4, a_cnt = 1\<rparr> \<lparr>a_avg = Fin 1, a_cnt = 24\<rparr> \<lparr>a_avg = Fin 8, a_cnt = 5 ^ 24 + 1\<rparr>]
   = [sides_data \<lparr>a_avg = Fin 4, a_cnt = 1\<rparr> \<lparr>a_avg = Fin 1, a_cnt = 24\<rparr> \<lparr>a_avg = Fin 8, a_cnt = 5 ^ 24 + 1\<rparr>]"
  by (simp add: rebalance_def for_loop.simps rebalance_dim_def reset_filter_def ref_deps_def
      sides_data_def ref_size_to_double_small ref_size_to_double_big Let_def)

lemma ex_sides_low_conditions:
  "count_conditions (sides_data \<lparr>a_avg = Fin 4, a_cnt = 1\<rparr> \<lparr>a_avg = Fin 1, a_cnt = 6\<rparr> \<lparr>a_avg = Fin 8, a_cnt = 1\<rparr>)
   \<and> combined_mid (ref_deps solver_fails)
       (sides_data \<lparr>a_avg = Fin 4, a_cnt = 1\<rparr> \<lparr>a_avg = Fin 1, a_cnt = 6\<rparr> \<lparr>a_avg = Fin 8, a_cnt = 1\<rparr>)
     = \<lparr>a_avg = Fin 2, a_cnt = 7\<rparr>"
  by (simp add: count_conditions_def combined_mid_def ref_deps_def ref_avg_merge_def
      sides_data_def)

lemma ex_sides_high_conditions:
  "count_conditions (sides_data \<lparr>a_avg = Fin 4, a_cnt = 1\<rparr> \<lparr>a_avg = Fin 1, a_cnt = 24\<rparr> \<lparr>a_avg = Fin 8, a_cnt = 5 ^ 24 + 1\<rparr>)
   \<and> midpoint_moves (ref_deps solver_fails)
       (sides_data \<lparr>a_avg = Fin 4, a_cnt = 1\<rparr> \<lparr>a_avg = Fin 1, a_cnt = 24\<rparr> \<lparr>a_avg = Fin 8, a_cnt = 5 ^ 24 + 1\<rparr>)"
  by (simp add: count_conditions_def midpoint_moves_def combined_mid_def ref_deps_def
      ref_avg_merge_def sides_data_def deq_def)

lemma ex_node_update_sides:
  assumes "for_loop 0 1 (update_dim (ref_deps solver_fails) [x] (Fin 1) (Fin 1) (options_with (Fin 1)))
     ([sides_data m l h], 0, 0, []) = (data, 0, 0, [])"
  shows "data_after (node_update (ref_deps solver_fails) [x] 1 (Fin 1) [sides_leaf m l h] 0 (Fin 1)
       (options_with (Fin 1)) []) 0 = Some (rebalance (ref_deps solver_fails) 1 data)"
proof -
  let ?D = "ref_deps solver_fails"
  let ?nodes = "[sides_leaf m l h]"
  have a1: "\<not> is_split (n_split (?nodes ! 0))" by (simp add: sides_leaf_def node_new_def)
  have a2: "[sides_data m l h] =
     (case p_data (n_predictor (?nodes ! 0)) of None \<Rightarrow> replicate 1 (qdata_new ?D) | Some d \<Rightarrow> d)"
    by (simp add: sides_leaf_def node_new_def)
  note eq = node_update_eq[where D = ?D and nodes = ?nodes and org = 0 and dimen = 1,
        OF a1 a2 _ _ assms]
  show ?thesis
    unfolding data_after_def using eq by simp
qed

subsection \<open>The claims on rebalancing\<close>

text \<open>
  C10. In an update of a leaf that does not split (the first loop ends with no candidate),
  a dimension that meets the three count conditions (as counts, or as the code evaluates
  them) while its combined low and high
  midpoint average equals its current midpoint estimate is skipped: its midpoint, its side
  midpoint estimates with their counts and its value statistics stay as the first loop left
  them; and the filters of the leaf are reset only if some other dimension is rebalanced
  (it passes the test of the code on its counts, and its midpoint moves).
\<close>

theorem rebalance_skips_equal_midpoint:
  assumes "\<not> is_split (n_split (nodes ! org))"
    and "data0 = (case p_data (n_predictor (nodes ! org)) of
                    None \<Rightarrow> replicate dimen (qdata_new D) | Some d \<Rightarrow> d)"
    and "dimen \<le> length point" and "dimen \<le> length data0"
    and "for_loop 0 dimen (update_dim D point nval delta options) (data0, 0, 0, g) = (data, svar, 0, g')"
    and "i < dimen"
    and "count_conditions (data ! i) \<or> count_test D (data ! i)"
    and "deq (a_avg (combined_mid D (data ! i))) (a_avg (midpoint (data ! i)))"
  shows "node_update D point dimen nval nodes org delta options g =
           Inr (nodes[org := (nodes ! org)\<lparr>n_predictor :=
                     \<lparr>p_q = qvar_add D ((p_q (n_predictor (nodes ! org)))
                               \<lparr>q_cnt := min (q_cnt (p_q (n_predictor (nodes ! org)))) (q_learn_rate options)\<rparr>) nval,
                      p_cnt = p_cnt (n_predictor (nodes ! org)) + 1,
                      p_data = Some (rebalance D dimen data)\<rparr>\<rparr>], g')
         \<and> midpoint (rebalance D dimen data ! i) = midpoint (data ! i)
         \<and> lmid (rebalance D dimen data ! i) = lmid (data ! i)
         \<and> hmid (rebalance D dimen data ! i) = hmid (data ! i)
         \<and> lowq (rebalance D dimen data ! i) = lowq (data ! i)
         \<and> highq (rebalance D dimen data ! i) = highq (data ! i)
         \<and> (\<forall>j<dimen. splitfilter (rebalance D dimen data ! j) =
               (if \<exists>k<dimen. k \<noteq> i \<and> count_test D (data ! k) \<and> midpoint_moves D (data ! k)
                then sf_reset D (splitfilter (data ! j)) else splitfilter (data ! j)))"
proof -
  define E where "E \<longleftrightarrow> (\<exists>k<dimen. k \<noteq> i \<and> count_test D (data ! k) \<and> midpoint_moves D (data ! k))"
  have len: "dimen \<le> length data"
    using update_loop_length[OF assms(4,5)] assms(4) by simp
  have skip: "(count_test D (data ! i) \<and> midpoint_moves D (data ! i)) = False"
    using assms(8) by (simp add: midpoint_moves_def)
  have ex: "(\<exists>k<dimen. count_test D (data ! k) \<and> midpoint_moves D (data ! k)) = E"
    unfolding E_def using skip by blast
  have sf: "\<And>j. splitfilter (recentred D (data ! j)) = splitfilter (data ! j)"
    by (simp add: recentred_def)
  have upd: "node_update D point dimen nval nodes org delta options g =
           Inr (nodes[org := (nodes ! org)\<lparr>n_predictor :=
                     \<lparr>p_q = qvar_add D ((p_q (n_predictor (nodes ! org)))
                               \<lparr>q_cnt := min (q_cnt (p_q (n_predictor (nodes ! org)))) (q_learn_rate options)\<rparr>) nval,
                      p_cnt = p_cnt (n_predictor (nodes ! org)) + 1,
                      p_data = Some (rebalance D dimen data)\<rparr>\<rparr>], g')"
    by (simp add: node_update_eq[OF assms(1-5)])
  have it: "rebalance D dimen data ! i =
      (if E then (data ! i)\<lparr>splitfilter := sf_reset D (splitfilter (data ! i))\<rparr> else data ! i)"
    by (simp only: rebalance_nth[OF len assms(6)] ex skip if_False)
  have filters: "\<forall>j<dimen. splitfilter (rebalance D dimen data ! j) =
               (if E then sf_reset D (splitfilter (data ! j)) else splitfilter (data ! j))"
  proof (intro allI impI)
    fix j assume j: "j < dimen"
    show "splitfilter (rebalance D dimen data ! j) =
               (if E then sf_reset D (splitfilter (data ! j)) else splitfilter (data ! j))"
      unfolding rebalance_nth[OF len j] ex by (simp add: sf)
  qed
  from upd it filters show ?thesis unfolding E_def[symmetric] by simp
qed

theorem rebalance_skips_equal_midpoint_witness:
  "count_conditions (low_data (Fin 1) 2 (Fin 0)) \<and>
   count_test (ref_deps solver_fails) (low_data (Fin 1) 2 (Fin 0)) \<and>
   deq (a_avg (combined_mid (ref_deps solver_fails) (low_data (Fin 1) 2 (Fin 0))))
       (a_avg (midpoint (low_data (Fin 1) 2 (Fin 0)))) \<and>
   rebalance (ref_deps solver_fails) 1 [low_data (Fin 1) 2 (Fin 0)] ! 0 = low_data (Fin 1) 2 (Fin 0)"
proof -
  let ?D = "ref_deps solver_fails"
  let ?nodes = "[seen_leaf (Fin 1) 1 (Fin 0)]"
  have a1: "\<not> is_split (n_split (?nodes ! 0))" by (simp add: seen_leaf_def node_new_def)
  have a2: "[low_data (Fin 1) 1 (Fin 0)] =
     (case p_data (n_predictor (?nodes ! 0)) of None \<Rightarrow> replicate 1 (qdata_new ?D) | Some d \<Rightarrow> d)"
    by (simp add: seen_leaf_def node_new_def)
  have a8: "deq (a_avg (combined_mid ?D ([low_data (Fin 1) 2 (Fin 0)] ! 0)))
                (a_avg (midpoint ([low_data (Fin 1) 2 (Fin 0)] ! 0)))"
    using ex_not_moves by (simp add: midpoint_moves_def)
  have a7: "count_conditions ([low_data (Fin 1) 2 (Fin 0)] ! 0)
            \<or> count_test ?D ([low_data (Fin 1) 2 (Fin 0)] ! 0)"
    by (simp add: ex_count_conditions)
  note th = rebalance_skips_equal_midpoint[where D = ?D and nodes = ?nodes and org = 0
      and dimen = 1 and point = "[Fin 0]" and nval = "Fin 1" and delta = "Fin 1"
      and options = "options_with (Fin 1)" and g = "[]" and i = 0,
      OF a1 a2 _ _ ex_loop_same _ a7 a8]
  have "rebalance ?D 1 [low_data (Fin 1) 2 (Fin 0)] ! 0 = low_data (Fin 1) 2 (Fin 0)"
    using th by (intro qdata_t.equality) simp_all
  with a8 ex_count_conditions ex_count_test show ?thesis by simp
qed

text \<open>
  C3, as the code has it. In an update of a leaf that does not split, a dimension is
  rebalanced exactly when one side's midpoint count is at least 2, the power of doubles
  \<^verbatim>\<open>std::pow(5, min_count)\<close> is less than \<^verbatim>\<open>max_count\<close> converted to \<^verbatim>\<open>double\<close>, the larger
  count exceeds the count of the midpoint estimator, and the combined low and high midpoint
  average differs from the current midpoint estimate. Rebalancing merges the combined
  estimate into the midpoint estimator, gives both sides the combined midpoint estimate
  with half the combined count, and gives both sides the approximate merge of the two value
  statistics with half the merged count. If any dimension is rebalanced, the filters of all
  dimensions of the leaf are reset; otherwise nothing changes.
\<close>

theorem rebalance_when_midpoint_moves:
  assumes "\<not> is_split (n_split (nodes ! org))"
    and "data0 = (case p_data (n_predictor (nodes ! org)) of
                    None \<Rightarrow> replicate dimen (qdata_new D) | Some d \<Rightarrow> d)"
    and "dimen \<le> length point" and "dimen \<le> length data0"
    and "for_loop 0 dimen (update_dim D point nval delta options) (data0, 0, 0, g) = (data, svar, 0, g')"
  shows "node_update D point dimen nval nodes org delta options g =
           Inr (nodes[org := (nodes ! org)\<lparr>n_predictor :=
                     \<lparr>p_q = qvar_add D ((p_q (n_predictor (nodes ! org)))
                               \<lparr>q_cnt := min (q_cnt (p_q (n_predictor (nodes ! org)))) (q_learn_rate options)\<rparr>) nval,
                      p_cnt = p_cnt (n_predictor (nodes ! org)) + 1,
                      p_data = Some (rebalance D dimen data)\<rparr>\<rparr>], g')
         \<and> length (rebalance D dimen data) = length data
         \<and> (\<forall>i<dimen. rebalance D dimen data ! i =
               (if \<exists>k<dimen. count_test D (data ! k) \<and> midpoint_moves D (data ! k)
                then (if count_test D (data ! i) \<and> midpoint_moves D (data ! i)
                      then recentred D (data ! i) else data ! i)
                     \<lparr>splitfilter := sf_reset D (splitfilter (data ! i))\<rparr>
                else data ! i))"
proof -
  have len: "dimen \<le> length data"
    using update_loop_length[OF assms(4,5)] assms(4) by simp
  show ?thesis
    by (simp add: node_update_eq[OF assms(1-5)] rebalance_nth[OF len] length_rebalance[OF len])
qed

theorem rebalance_when_midpoint_moves_witness:
  "node_update (ref_deps solver_fails) [Fin 0] 1 (Fin 1) [seen_leaf (Fin 1) 1 (Fin 0)] 0 (Fin 1)
       (options_with (Fin 1)) []
     = Inr ([seen_leaf (Fin 1) 2 (Fin 0)], [])
   \<and> rebalance (ref_deps solver_fails) 1 [low_data (Fin 1) 2 (Fin 0)] = [low_data (Fin 1) 2 (Fin 0)]
   \<and> count_test (ref_deps solver_fails) (low_data (Fin 1) 2 (Fin (- 1)))
   \<and> midpoint_moves (ref_deps solver_fails) (low_data (Fin 1) 2 (Fin (- 1)))
   \<and> rebalance (ref_deps solver_fails) 1 [low_data (Fin 1) 2 (Fin (- 1))]
       = [\<lparr>midpoint = \<lparr>a_avg = Fin (- 1), a_cnt = 2\<rparr>,
           lowq = \<lparr>q_avg = Fin 1, q_cnt = 1, q_variance = Fin 0\<rparr>,
           highq = \<lparr>q_avg = Fin 1, q_cnt = 1, q_variance = Fin 0\<rparr>,
           lmid = \<lparr>a_avg = Fin (- 1), a_cnt = 1\<rparr>, hmid = \<lparr>a_avg = Fin (- 1), a_cnt = 1\<rparr>,
           splitfilter = Fin 0\<rparr>]"
proof -
  let ?D = "ref_deps solver_fails"
  let ?nodes = "[seen_leaf (Fin 1) 1 (Fin 0)]"
  let ?nodes2 = "[seen_leaf (Fin 1) 1 (Fin (- 1))]"
  have a1: "\<not> is_split (n_split (?nodes ! 0))" by (simp add: seen_leaf_def node_new_def)
  have a2: "[low_data (Fin 1) 1 (Fin 0)] =
     (case p_data (n_predictor (?nodes ! 0)) of None \<Rightarrow> replicate 1 (qdata_new ?D) | Some d \<Rightarrow> d)"
    by (simp add: seen_leaf_def node_new_def)
  have b1: "\<not> is_split (n_split (?nodes2 ! 0))" by (simp add: seen_leaf_def node_new_def)
  have b2: "[low_data (Fin 1) 1 (Fin (- 1))] =
     (case p_data (n_predictor (?nodes2 ! 0)) of None \<Rightarrow> replicate 1 (qdata_new ?D) | Some d \<Rightarrow> d)"
    by (simp add: seen_leaf_def node_new_def)
  note th = rebalance_when_midpoint_moves[where D = ?D and nodes = ?nodes and org = 0
      and dimen = 1 and point = "[Fin 0]" and nval = "Fin 1" and delta = "Fin 1"
      and options = "options_with (Fin 1)" and g = "[]",
      OF a1 a2 _ _ ex_loop_same]
  note th2 = rebalance_when_midpoint_moves[where D = ?D and nodes = ?nodes2 and org = 0
      and dimen = 1 and point = "[Fin (- 1)]" and nval = "Fin 1" and delta = "Fin 1"
      and options = "options_with (Fin 1)" and g = "[]",
      OF b1 b2 _ _ ex_loop_moves]
  have r: "rebalance ?D 1 [low_data (Fin 1) 2 (Fin 0)] = [low_data (Fin 1) 2 (Fin 0)]"
    using th ex_not_moves by (intro nth_equalityI) simp_all
  have r2: "rebalance ?D 1 [low_data (Fin 1) 2 (Fin (- 1))]
       = [\<lparr>midpoint = \<lparr>a_avg = Fin (- 1), a_cnt = 2\<rparr>,
           lowq = \<lparr>q_avg = Fin 1, q_cnt = 1, q_variance = Fin 0\<rparr>,
           highq = \<lparr>q_avg = Fin 1, q_cnt = 1, q_variance = Fin 0\<rparr>,
           lmid = \<lparr>a_avg = Fin (- 1), a_cnt = 1\<rparr>, hmid = \<lparr>a_avg = Fin (- 1), a_cnt = 1\<rparr>,
           splitfilter = Fin 0\<rparr>]"
    using th2 ex_moves ex_recentred by (intro nth_equalityI) simp_all
  have q: "qvar_add ?D ((p_q (n_predictor (?nodes ! 0)))
              \<lparr>q_cnt := min (q_cnt (p_q (n_predictor (?nodes ! 0)))) (q_learn_rate (options_with (Fin 1)))\<rparr>) (Fin 1)
           = \<lparr>q_avg = Fin 1, q_cnt = 2, q_variance = Fin 0\<rparr>"
    by (simp add: seen_leaf_def node_new_def ref_deps_def ref_qvar_add_def options_with_def)
  have "node_update ?D [Fin 0] 1 (Fin 1) ?nodes 0 (Fin 1) (options_with (Fin 1)) []
     = Inr ([seen_leaf (Fin 1) 2 (Fin 0)], [])"
    using th unfolding r q by (simp add: seen_leaf_def node_new_def)
  with r r2 ex_moves show ?thesis by simp
qed

text \<open>
  The claim C3 as it stands fails in three ways, each on an update that does not split.

  \<^item> After two observations at the coordinate 0 the only dimension of a fresh leaf meets
    the three count conditions (side counts 2 and 0, midpoint count 0), and the update
    leaves it as it is, the low count still 2: its combined midpoint average 0 equals its
    midpoint estimate.
  \<^item> A dimension with the midpoint estimate 4 (count 1), six observations at the
    coordinate 1 and one at 8 is rebalanced. Its combined midpoint average is 2 with count
    7; its midpoint estimate becomes 9/4 with count 8, not 2, and both side counts become
    3, the half of 7, where the halves of the recorded counts 6 and 1 are 3 and 0.
  \<^item> A dimension with 24 observations on one side and \<open>5 ^ 24 + 1\<close> on the other meets the
    three count conditions and its midpoint moves, and the update leaves it as it is: the
    count \<open>5 ^ 24 + 1\<close> has no double of its own and is converted to \<open>5 ^ 24 - 1\<close>, which the
    power \<open>5 ^ 24\<close> is not less than.
\<close>

theorem rebalance_count_conditions_counterexample:
  "node_update (ref_deps solver_fails) [Fin 0] 1 (Fin 1) [seen_leaf (Fin 1) 1 (Fin 0)] 0 (Fin 1)
       (options_with (Fin 1)) []
     = Inr ([seen_leaf (Fin 1) 2 (Fin 0)], []) \<and>
   p_data (n_predictor (seen_leaf (Fin 1) 2 (Fin 0))) = Some [low_data (Fin 1) 2 (Fin 0)] \<and>
   count_conditions (low_data (Fin 1) 2 (Fin 0)) \<and>
   count_test (ref_deps solver_fails) (low_data (Fin 1) 2 (Fin 0)) \<and>
   a_cnt (lmid (low_data (Fin 1) 2 (Fin 0))) = 2 \<and>
   for_loop 0 1 (update_dim (ref_deps solver_fails) [Fin 1] (Fin 1) (Fin 1) (options_with (Fin 1)))
     ([sides_data \<lparr>a_avg = Fin 4, a_cnt = 1\<rparr> \<lparr>a_avg = Fin 1, a_cnt = 5\<rparr> \<lparr>a_avg = Fin 8, a_cnt = 1\<rparr>], 0, 0, [])
     = ([sides_data \<lparr>a_avg = Fin 4, a_cnt = 1\<rparr> \<lparr>a_avg = Fin 1, a_cnt = 6\<rparr> \<lparr>a_avg = Fin 8, a_cnt = 1\<rparr>], 0, 0, []) \<and>
   count_conditions
     (sides_data \<lparr>a_avg = Fin 4, a_cnt = 1\<rparr> \<lparr>a_avg = Fin 1, a_cnt = 6\<rparr> \<lparr>a_avg = Fin 8, a_cnt = 1\<rparr>) \<and>
   combined_mid (ref_deps solver_fails)
     (sides_data \<lparr>a_avg = Fin 4, a_cnt = 1\<rparr> \<lparr>a_avg = Fin 1, a_cnt = 6\<rparr> \<lparr>a_avg = Fin 8, a_cnt = 1\<rparr>)
     = \<lparr>a_avg = Fin 2, a_cnt = 7\<rparr> \<and>
   data_after
     (node_update (ref_deps solver_fails) [Fin 1] 1 (Fin 1)
        [sides_leaf \<lparr>a_avg = Fin 4, a_cnt = 1\<rparr> \<lparr>a_avg = Fin 1, a_cnt = 5\<rparr> \<lparr>a_avg = Fin 8, a_cnt = 1\<rparr>]
        0 (Fin 1) (options_with (Fin 1)) []) 0
     = Some [\<lparr>midpoint = \<lparr>a_avg = Fin (9 / 4), a_cnt = 8\<rparr>,
              lowq = \<lparr>q_avg = Fin 1, q_cnt = 3, q_variance = Fin 0\<rparr>,
              highq = \<lparr>q_avg = Fin 1, q_cnt = 3, q_variance = Fin 0\<rparr>,
              lmid = \<lparr>a_avg = Fin 2, a_cnt = 3\<rparr>, hmid = \<lparr>a_avg = Fin 2, a_cnt = 3\<rparr>,
              splitfilter = Fin 0\<rparr>] \<and>
   for_loop 0 1 (update_dim (ref_deps solver_fails) [Fin 8] (Fin 1) (Fin 1) (options_with (Fin 1)))
     ([sides_data \<lparr>a_avg = Fin 4, a_cnt = 1\<rparr> \<lparr>a_avg = Fin 1, a_cnt = 24\<rparr> \<lparr>a_avg = Fin 8, a_cnt = 5 ^ 24\<rparr>], 0, 0, [])
     = ([sides_data \<lparr>a_avg = Fin 4, a_cnt = 1\<rparr> \<lparr>a_avg = Fin 1, a_cnt = 24\<rparr> \<lparr>a_avg = Fin 8, a_cnt = 5 ^ 24 + 1\<rparr>], 0, 0, []) \<and>
   count_conditions
     (sides_data \<lparr>a_avg = Fin 4, a_cnt = 1\<rparr> \<lparr>a_avg = Fin 1, a_cnt = 24\<rparr> \<lparr>a_avg = Fin 8, a_cnt = 5 ^ 24 + 1\<rparr>) \<and>
   midpoint_moves (ref_deps solver_fails)
     (sides_data \<lparr>a_avg = Fin 4, a_cnt = 1\<rparr> \<lparr>a_avg = Fin 1, a_cnt = 24\<rparr> \<lparr>a_avg = Fin 8, a_cnt = 5 ^ 24 + 1\<rparr>) \<and>
   data_after
     (node_update (ref_deps solver_fails) [Fin 8] 1 (Fin 1)
        [sides_leaf \<lparr>a_avg = Fin 4, a_cnt = 1\<rparr> \<lparr>a_avg = Fin 1, a_cnt = 24\<rparr> \<lparr>a_avg = Fin 8, a_cnt = 5 ^ 24\<rparr>]
        0 (Fin 1) (options_with (Fin 1)) []) 0
     = Some [sides_data \<lparr>a_avg = Fin 4, a_cnt = 1\<rparr> \<lparr>a_avg = Fin 1, a_cnt = 24\<rparr>
               \<lparr>a_avg = Fin 8, a_cnt = 5 ^ 24 + 1\<rparr>]"
proof -
  let ?D = "ref_deps solver_fails"
  have upd: "node_update ?D [Fin 0] 1 (Fin 1) [seen_leaf (Fin 1) 1 (Fin 0)] 0 (Fin 1)
       (options_with (Fin 1)) [] = Inr ([seen_leaf (Fin 1) 2 (Fin 0)], [])"
    by (rule ex_node_update_same)
  have c1: "a_cnt (lmid (low_data (Fin 1) 2 (Fin 0))) = 2" by (simp add: low_data_def)
  have d: "p_data (n_predictor (seen_leaf (Fin 1) 2 (Fin 0))) = Some [low_data (Fin 1) 2 (Fin 0)]"
    by (simp add: seen_leaf_def)
  have low: "data_after
     (node_update ?D [Fin 1] 1 (Fin 1)
        [sides_leaf \<lparr>a_avg = Fin 4, a_cnt = 1\<rparr> \<lparr>a_avg = Fin 1, a_cnt = 5\<rparr> \<lparr>a_avg = Fin 8, a_cnt = 1\<rparr>]
        0 (Fin 1) (options_with (Fin 1)) []) 0
     = Some [\<lparr>midpoint = \<lparr>a_avg = Fin (9 / 4), a_cnt = 8\<rparr>,
              lowq = \<lparr>q_avg = Fin 1, q_cnt = 3, q_variance = Fin 0\<rparr>,
              highq = \<lparr>q_avg = Fin 1, q_cnt = 3, q_variance = Fin 0\<rparr>,
              lmid = \<lparr>a_avg = Fin 2, a_cnt = 3\<rparr>, hmid = \<lparr>a_avg = Fin 2, a_cnt = 3\<rparr>,
              splitfilter = Fin 0\<rparr>]"
    unfolding ex_node_update_sides[OF ex_loop_sides_low] ex_sides_rebalanced
    by (simp add: sides_data_def)
  have high: "data_after
     (node_update ?D [Fin 8] 1 (Fin 1)
        [sides_leaf \<lparr>a_avg = Fin 4, a_cnt = 1\<rparr> \<lparr>a_avg = Fin 1, a_cnt = 24\<rparr> \<lparr>a_avg = Fin 8, a_cnt = 5 ^ 24\<rparr>]
        0 (Fin 1) (options_with (Fin 1)) []) 0
     = Some [sides_data \<lparr>a_avg = Fin 4, a_cnt = 1\<rparr> \<lparr>a_avg = Fin 1, a_cnt = 24\<rparr>
               \<lparr>a_avg = Fin 8, a_cnt = 5 ^ 24 + 1\<rparr>]"
    unfolding ex_node_update_sides[OF ex_loop_sides_high] ex_sides_kept ..
  from upd d ex_count_conditions ex_count_test c1 ex_loop_sides_low ex_sides_low_conditions low
    ex_loop_sides_high ex_sides_high_conditions high
  show ?thesis by (intro conjI) (simp_all only: simp_thms)
qed

subsection \<open>Reservoir sampling is uniform\<close>

lemma draw_vectors_length: "rs \<in> set (draw_vectors n) \<Longrightarrow> length rs = n"
  by (induction n arbitrary: rs) auto

lemma length_draw_vectors: "length (draw_vectors n) = fact n"
proof (induction n)
  case 0
  show ?case by simp
next
  case (Suc n)
  have "length (draw_vectors (Suc n)) =
        sum_list (map (\<lambda>rs. Suc n) (draw_vectors n))"
    by (simp add: length_concat comp_def)
  also have "\<dots> = length (draw_vectors n) * Suc n"
    by (simp add: sum_list_triv)
  finally show ?case using Suc by (simp add: mult.commute)
qed

lemma sum_list_if_const:
  "sum_list (map (\<lambda>x. if Q x then n else 0) xs) = n * length (filter Q xs)"
  by (induction xs) (simp_all add: algebra_simps)

lemma count_last_draw:
  assumes "length rs = length cs"
  shows "length (filter (\<lambda>v. pick_from 0 (cs @ [c]) v s = t)
                   (map (\<lambda>r. rs @ [r]) [0..<Suc (length cs)])) =
         (if c = t then 1 else 0) + (if pick_from 0 cs rs s = t then length cs else 0)"
proof -
  let ?n = "length cs"
  have split: "[0..<Suc ?n] = 0 # [1..<Suc ?n]" by (subst upt_conv_Cons) simp_all
  have first: "(pick_from 0 (cs @ [c]) (rs @ [0]) s = t) = (c = t)"
    by (simp add: pick_from_snoc[OF assms])
  have rest: "\<And>r. r \<in> set [1..<Suc ?n] \<Longrightarrow>
           (pick_from 0 (cs @ [c]) (rs @ [r]) s = t) = (pick_from 0 cs rs s = t)"
  proof -
    fix r assume "r \<in> set [1..<Suc ?n]"
    then have "0 < r" "r < Suc ?n" by (simp_all del: upt_Suc)
    then have "r mod (0 + ?n + 1) \<noteq> 0" by simp
    then show "(pick_from 0 (cs @ [c]) (rs @ [r]) s = t) = (pick_from 0 cs rs s = t)"
      by (simp only: pick_from_snoc[OF assms] if_False)
  qed
  have "filter ((\<lambda>v. pick_from 0 (cs @ [c]) v s = t) \<circ> (\<lambda>r. rs @ [r])) [1..<Suc ?n] =
        filter (\<lambda>r. pick_from 0 cs rs s = t) [1..<Suc ?n]"
    by (rule filter_cong[OF refl]) (simp only: o_def rest)
  then have "length (filter (\<lambda>v. pick_from 0 (cs @ [c]) v s = t) (map (\<lambda>r. rs @ [r]) [1..<Suc ?n])) =
        length (filter (\<lambda>r. pick_from 0 cs rs s = t) [1..<Suc ?n])"
    by (simp only: filter_map length_map)
  also have "\<dots> = (if pick_from 0 cs rs s = t then ?n else 0)"
    by (cases "pick_from 0 cs rs s = t") (simp_all del: upt_Suc)
  finally have tail: "length (filter (\<lambda>v. pick_from 0 (cs @ [c]) v s = t) (map (\<lambda>r. rs @ [r]) [1..<Suc ?n])) =
        (if pick_from 0 cs rs s = t then ?n else 0)" .
  have "length (filter (\<lambda>v. pick_from 0 (cs @ [c]) v s = t)
                   (map (\<lambda>r. rs @ [r]) (0 # [1..<Suc ?n]))) =
        (if pick_from 0 (cs @ [c]) (rs @ [0]) s = t then 1 else 0)
        + length (filter (\<lambda>v. pick_from 0 (cs @ [c]) v s = t) (map (\<lambda>r. rs @ [r]) [1..<Suc ?n]))"
    by (simp only: list.map filter.simps) (simp only: list.size if_distrib[of length] split: if_splits, simp)
  then show ?thesis
    unfolding split first tail .
qed

lemma reservoir_uniform:
  assumes "distinct cs" and "j < length cs"
  shows "length (filter (\<lambda>rs. pick_from 0 cs rs s = cs ! j) (draw_vectors (length cs)))
         = fact (length cs - 1)"
  using assms
proof (induction cs arbitrary: j rule: rev_induct)
  case Nil
  then show ?case by simp
next
  case (snoc c cs)
  let ?n = "length cs"
  let ?t = "(cs @ [c]) ! j"
  have dist: "distinct cs" and cnot: "c \<notin> set cs" using snoc.prems(1) by simp_all
  have "length (filter (\<lambda>v. pick_from 0 (cs @ [c]) v s = ?t) (draw_vectors (Suc ?n))) =
        sum_list (map (\<lambda>rs. length (filter (\<lambda>v. pick_from 0 (cs @ [c]) v s = ?t)
                                 (map (\<lambda>r. rs @ [r]) [0..<Suc ?n]))) (draw_vectors ?n))"
    by (simp add: filter_concat length_concat comp_def)
  also have "\<dots> = sum_list (map (\<lambda>rs. (if c = ?t then 1 else 0)
                          + (if pick_from 0 cs rs s = ?t then ?n else 0)) (draw_vectors ?n))"
    by (rule arg_cong[where f = sum_list], rule map_cong[OF refl])
      (simp only: count_last_draw[OF draw_vectors_length])
  finally have total: "length (filter (\<lambda>v. pick_from 0 (cs @ [c]) v s = ?t) (draw_vectors (Suc ?n))) =
      sum_list (map (\<lambda>rs. (if c = ?t then 1 else 0)
                          + (if pick_from 0 cs rs s = ?t then ?n else 0)) (draw_vectors ?n))" .
  show ?case
  proof (cases "j = ?n")
    case True
    then have t: "?t = c" by simp
    have none: "\<And>rs. rs \<in> set (draw_vectors ?n) \<Longrightarrow>
                 (if pick_from 0 cs rs s = c then ?n else 0) = 0"
    proof -
      fix rs assume rs: "rs \<in> set (draw_vectors ?n)"
      show "(if pick_from 0 cs rs s = c then ?n else 0) = 0"
      proof (cases "cs = []")
        case False
        from pick_from_0_mem[OF draw_vectors_length[OF rs] False] cnot
        show ?thesis by auto
      qed simp
    qed
    have "sum_list (map (\<lambda>rs. (if c = c then 1 else 0)
                          + (if pick_from 0 cs rs s = c then ?n else 0)) (draw_vectors ?n)) =
          sum_list (map (\<lambda>rs. 1) (draw_vectors ?n))"
      by (rule arg_cong[where f = sum_list], rule map_cong[OF refl]) (simp add: none)
    also have "\<dots> = fact ?n" by (simp add: sum_list_triv length_draw_vectors)
    finally show ?thesis using total unfolding t by simp
  next
    case False
    with snoc.prems(2) have j: "j < ?n" by simp
    then have t: "?t = cs ! j" by (simp add: nth_append)
    have ne: "c \<noteq> cs ! j" using cnot j by auto
    have "sum_list (map (\<lambda>rs. (if c = cs ! j then 1 else 0)
                          + (if pick_from 0 cs rs s = cs ! j then ?n else 0)) (draw_vectors ?n)) =
          ?n * length (filter (\<lambda>rs. pick_from 0 cs rs s = cs ! j) (draw_vectors ?n))"
      using ne by (simp add: sum_list_if_const)
    also have "\<dots> = ?n * fact (?n - 1)" using snoc.IH[OF dist j] by simp
    also have "\<dots> = fact ?n" using j by (cases ?n) simp_all
    finally show ?thesis using total unfolding t by simp
  qed
qed

subsection \<open>The claims on the split\<close>

lemma seed_q_eq:
  "seed_q oq q =
     (if 0 < q_cnt oq \<and> q_cnt q = 0
      then \<lparr>q_avg = q_avg oq, q_cnt = 1, q_variance = Fin 0\<rparr> else q)"
  by (cases q) (simp add: seed_q_def)

lemma set_correction_keeps:
  "n_split (set_correction D dimen tmp n) = n_split n"
  "n_predictor (set_correction D dimen tmp n) = n_predictor n"
  by (simp_all add: set_correction_def split: prod.splits)

lemma update_loop_observed:
  assumes "dimen \<le> length data0"
  shows "for_loop 0 dimen (update_dim D point nval delta options) (data0, 0, 0, g) =
     (observed D point nval delta options dimen data0,
      pick_from 0 (candidates D point nval delta options dimen data0)
        (draws (rand D) (length (candidates D point nval delta options dimen data0)) g) 0,
      length (candidates D point nval delta options dimen data0),
      after_draws (rand D) (length (candidates D point nval delta options dimen data0)) g)"
proof -
  have "candidates D point nval delta options dimen data0 =
        filter (\<lambda>i. is_candidate D options (observe_dim D point nval delta options i (data0 ! i))) [0..<dimen]"
    unfolding candidates_def observed_def using assms
    by (intro filter_cong[OF refl]) simp
  then show ?thesis
    unfolding update_loop[OF assms] observed_def by simp
qed

text \<open>
  C1. When an update of a leaf triggers a split (the first loop ends with \<open>cnt > 0\<close>), the
  update returns, the two new leaves are the last two nodes of the arena, and each has a
  value statistic with a count above zero: it is the low (high) value statistic of the
  chosen dimension, or, when that one has no observation, the mean of the split leaf with
  count 1 and variance 0. The operator that adds an observation to a value statistic is
  taken to give a count above zero.
\<close>

theorem split_children_count_positive:
  assumes "org < length nodes" and "\<not> is_split (n_split (nodes ! org))"
    and "data0 = (case p_data (n_predictor (nodes ! org)) of
                    None \<Rightarrow> replicate dimen (qdata_new D) | Some d \<Rightarrow> d)"
    and "dimen \<le> length point" and "dimen \<le> length data0"
    and "\<forall>q v. 0 < q_cnt (qvar_add D q v)"
    and "for_loop 0 dimen (update_dim D point nval delta options) (data0, 0, 0, g) = (data, svar, cnt, g')"
    and "0 < cnt"
    and "oq = qvar_add D ((p_q (n_predictor (nodes ! org)))
               \<lparr>q_cnt := min (q_cnt (p_q (n_predictor (nodes ! org)))) (q_learn_rate options)\<rparr>) nval"
  shows "\<exists>nodes'. node_update D point dimen nval nodes org delta options g = Inr (nodes', g')
     \<and> length nodes' = length nodes + 2
     \<and> s_low (n_split (nodes' ! org)) = length nodes
     \<and> s_high (n_split (nodes' ! org)) = length nodes + 1
     \<and> p_q (n_predictor (nodes' ! length nodes)) =
         (if q_cnt (lowq (data ! svar)) = 0
          then \<lparr>q_avg = q_avg oq, q_cnt = 1, q_variance = Fin 0\<rparr> else lowq (data ! svar))
     \<and> p_q (n_predictor (nodes' ! (length nodes + 1))) =
         (if q_cnt (highq (data ! svar)) = 0
          then \<lparr>q_avg = q_avg oq, q_cnt = 1, q_variance = Fin 0\<rparr> else highq (data ! svar))
     \<and> 0 < q_cnt (p_q (n_predictor (nodes' ! length nodes)))
     \<and> 0 < q_cnt (p_q (n_predictor (nodes' ! (length nodes + 1))))
     \<and> p_cnt (n_predictor (nodes' ! length nodes)) = q_cnt (p_q (n_predictor (nodes' ! length nodes)))
     \<and> p_cnt (n_predictor (nodes' ! (length nodes + 1))) =
         q_cnt (p_q (n_predictor (nodes' ! (length nodes + 1))))
     \<and> \<not> is_split (n_split (nodes' ! length nodes))
     \<and> \<not> is_split (n_split (nodes' ! (length nodes + 1)))"
proof -
  let ?leaf = "(nodes ! org)\<lparr>n_predictor :=
                 \<lparr>p_q = oq, p_cnt = p_cnt (n_predictor (nodes ! org)) + 1, p_data = Some data\<rparr>\<rparr>"
  have pos: "0 < q_cnt oq" using assms(6,9) by simp
  then have pos': "0 < q_cnt (p_q (n_predictor ?leaf))" by simp
  have upd: "node_update D point dimen nval nodes org delta options g =
      (case split_leaf D dimen nodes org ?leaf data svar of
         Inl e \<Rightarrow> Inl e | Inr nodes' \<Rightarrow> Inr (nodes', g'))"
    using assms(8) by (simp add: node_update_eq[OF assms(2,3,4,5,7)] assms(9))
  note sl = split_leaf_eq[OF pos', of D dimen nodes org data svar]
  have nth0: "\<And>xs a b. (xs @ [a, b]) ! length xs = (a :: 'a node_t)"
    by (simp add: nth_append)
  have nth1: "\<And>xs a b. (xs @ [a, b]) ! (length xs + 1) = (b :: 'a node_t)"
    by (simp add: nth_append)
  have ntho: "\<And>xs a b. org < length xs \<Longrightarrow> (xs @ [a, b]) ! org = (xs ! org :: 'a node_t)"
    by (simp add: nth_append)
  show ?thesis
    unfolding upd sl using pos assms(1)
    by (simp add: nth_append new_leaf_def node_new_def seed_q_eq set_correction_keeps)
qed

lemma ex_loop_fresh:
  "for_loop 0 1 (update_dim (ref_deps solver_fails) [Fin 0] (Fin 7) (Fin 1) (options_with (Fin 0)))
     ([qdata_new (ref_deps solver_fails)], 0, 0, []) = ([low_data (Fin 7) 1 (Fin 0)], 0, 1, [])"
  by (simp add: for_loop.simps update_dim_def observe_dim_def ref_deps_def low_data_def
      options_with_def ref_qvar_add_def ref_avg_add_def ref_sf_add_def dge_def avg_zero_def
      qvar_zero_def qdata_new_def Let_def)

lemma ref_qvar_add_pos: "\<forall>q v. 0 < q_cnt (qvar_add (ref_deps solver) q v)"
  by (simp add: ref_deps_def ref_qvar_add_def Let_def)

theorem split_children_count_positive_witness:
  "\<exists>nodes'. node_update (ref_deps solver_fails) [Fin 0] 1 (Fin 7) [node_new] 0 (Fin 1)
                (options_with (Fin 0)) [] = Inr (nodes', [])
     \<and> length nodes' = 3
     \<and> p_q (n_predictor (nodes' ! 1)) = \<lparr>q_avg = Fin 7, q_cnt = 1, q_variance = Fin 0\<rparr>
     \<and> p_q (n_predictor (nodes' ! 2)) = \<lparr>q_avg = Fin 7, q_cnt = 1, q_variance = Fin 0\<rparr>"
proof -
  let ?D = "ref_deps solver_fails"
  let ?nodes = "[node_new] :: dbl node_t list"
  have a1: "0 < length ?nodes" by simp
  have a2: "\<not> is_split (n_split (?nodes ! 0))" by (simp add: node_new_def)
  have a3: "[qdata_new ?D] =
     (case p_data (n_predictor (?nodes ! 0)) of None \<Rightarrow> replicate 1 (qdata_new ?D) | Some d \<Rightarrow> d)"
    by (simp add: node_new_def)
  have a9: "\<lparr>q_avg = Fin 7, q_cnt = 1, q_variance = Fin 0\<rparr> =
      qvar_add ?D ((p_q (n_predictor (?nodes ! 0)))
               \<lparr>q_cnt := min (q_cnt (p_q (n_predictor (?nodes ! 0)))) (q_learn_rate (options_with (Fin 0)))\<rparr>) (Fin 7)"
    by (simp add: node_new_def ref_deps_def ref_qvar_add_def qvar_zero_def options_with_def)
  from split_children_count_positive[where D = ?D and nodes = ?nodes and org = 0 and dimen = 1
      and point = "[Fin 0]" and nval = "Fin 7" and delta = "Fin 1"
      and options = "options_with (Fin 0)" and g = "[]",
      OF a1 a2 a3 _ _ ref_qvar_add_pos ex_loop_fresh _ a9]
  obtain nodes' where
    "node_update ?D [Fin 0] 1 (Fin 7) ?nodes 0 (Fin 1) (options_with (Fin 0)) [] = Inr (nodes', [])"
    "length nodes' = length ?nodes + 2"
    "p_q (n_predictor (nodes' ! length ?nodes)) =
         (if q_cnt (lowq ([low_data (Fin 7) 1 (Fin 0)] ! 0)) = 0
          then \<lparr>q_avg = q_avg \<lparr>q_avg = Fin 7, q_cnt = 1, q_variance = Fin 0\<rparr>, q_cnt = 1, q_variance = Fin 0\<rparr>
          else lowq ([low_data (Fin 7) 1 (Fin 0)] ! 0))"
    "p_q (n_predictor (nodes' ! (length ?nodes + 1))) =
         (if q_cnt (highq ([low_data (Fin 7) 1 (Fin 0)] ! 0)) = 0
          then \<lparr>q_avg = q_avg \<lparr>q_avg = Fin 7, q_cnt = 1, q_variance = Fin 0\<rparr>, q_cnt = 1, q_variance = Fin 0\<rparr>
          else highq ([low_data (Fin 7) 1 (Fin 0)] ! 0))"
    by auto
  then show ?thesis
    by (intro exI[of _ nodes']) (simp add: low_data_def qvar_zero_def numeral_2_eq_2)
qed

lemma set_candidates:
  "set (candidates D point nval delta options dimen data0) =
     {i. i < dimen \<and> is_candidate D options (observed D point nval delta options dimen data0 ! i)}"
  by (auto simp: candidates_def)

lemma observed_midpoint:
  "i < length data0 \<Longrightarrow>
   midpoint (observed D point nval delta options dimen data0 ! i) = midpoint (data0 ! i)"
  by (simp add: observed_def observe_dim_def Let_def)

text \<open>
  The pick reads the draws only through their residues, and the residues of \<open>n\<close> draws are
  one of the \<open>n!\<close> combinations, which are pairwise distinct.
\<close>

lemma pick_from_residues:
  "pick_from k cs (residues_from k rs) s = pick_from k cs rs s"
proof (induction cs arbitrary: k rs s)
  case Nil
  show ?case by simp
next
  case (Cons c cs)
  show ?case
  proof (cases rs)
    case Nil
    then show ?thesis by simp
  next
    case (Cons r rs')
    show ?thesis unfolding Cons by (simp add: Cons.IH)
  qed
qed

lemma length_residues_from: "length (residues_from k rs) = length rs"
  by (induction rs arbitrary: k) simp_all

lemma residues_from_snoc:
  "residues_from k (rs @ [r]) = residues_from k rs @ [r mod (k + length rs + 1)]"
  by (induction rs arbitrary: k) simp_all

lemma residues_mem: "length rs = n \<Longrightarrow> residues rs \<in> set (draw_vectors n)"
proof (induction n arbitrary: rs)
  case 0
  then show ?case by (simp add: residues_def)
next
  case (Suc n)
  then obtain rs' r where rs: "rs = rs' @ [r]" and len: "length rs' = n"
    by (metis length_Suc_conv_rev)
  have mem: "residues rs' \<in> set (draw_vectors n)" by (rule Suc.IH[OF len])
  have eq: "residues rs = residues rs' @ [r mod Suc n]"
    unfolding rs residues_def residues_from_snoc using len by simp
  have r: "r mod Suc n \<in> set [0..<Suc n]" by (simp del: upt_Suc)
  have "residues rs' @ [r mod Suc n] \<in> set (map (\<lambda>x. residues rs' @ [x]) [0..<Suc n])"
    using r by (simp only: set_map) (rule imageI)
  moreover have "map (\<lambda>x. residues rs' @ [x]) [0..<Suc n]
                   \<in> set (map (\<lambda>rs. map (\<lambda>r. rs @ [r]) [0..<Suc n]) (draw_vectors n))"
    using mem by (simp only: set_map) (rule imageI)
  ultimately have "residues rs' @ [r mod Suc n]
      \<in> set (concat (map (\<lambda>rs. map (\<lambda>r. rs @ [r]) [0..<Suc n]) (draw_vectors n)))"
    unfolding set_concat by (rule UN_I[rotated])
  then show ?case unfolding eq draw_vectors.simps .
qed

text \<open>
  Counting generator states by the combination their draws fall on: when every combination
  is met by the same number \<open>m\<close> of states, a property of the combination holds for \<open>m\<close> times
  as many states as there are combinations with the property.
\<close>

lemma sum_list_one_class:
  assumes "distinct vs" and "a \<in> set vs"
  shows "sum_list (map (\<lambda>v. if P v \<and> a = v then 1 else 0) vs) = (if P a then 1 else (0::nat))"
  using assms
proof (induction vs)
  case Nil
  then show ?case by simp
next
  case (Cons v vs)
  show ?case
  proof (cases "a = v")
    case True
    with Cons.prems have "a \<notin> set vs" by simp
    then have "\<And>x. x \<in> set vs \<Longrightarrow> (if P x \<and> a = x then 1 else 0) = (0::nat)" by auto
    then have "map (\<lambda>v. if P v \<and> a = v then 1 else (0::nat)) vs = map (\<lambda>v. 0) vs"
      by (intro map_cong[OF refl])
    then have "sum_list (map (\<lambda>v. if P v \<and> a = v then 1 else 0) vs) = (0::nat)"
      by (simp only: sum_list_triv)
    with True show ?thesis by simp
  next
    case False
    with Cons.prems have "distinct vs" "a \<in> set vs" by simp_all
    from Cons.IH[OF this] False show ?thesis by simp
  qed
qed

lemma count_by_class:
  assumes "distinct vs" and "\<forall>s \<in> set seeds. f s \<in> set vs"
  shows "length (filter (\<lambda>s. P (f s)) seeds) =
         sum_list (map (\<lambda>v. if P v then length (filter (\<lambda>s. f s = v) seeds) else 0) vs)"
  using assms(2)
proof (induction seeds)
  case Nil
  have "map (\<lambda>v. if P v then length (filter (\<lambda>s. f s = v) []) else 0) vs = map (\<lambda>v. 0) vs"
    by (intro map_cong[OF refl]) simp
  then show ?case by (simp only: sum_list_triv filter.simps list.size mult_zero_right)
next
  case (Cons s seeds)
  then have IH: "length (filter (\<lambda>s. P (f s)) seeds) =
         sum_list (map (\<lambda>v. if P v then length (filter (\<lambda>s. f s = v) seeds) else 0) vs)"
    and mem: "f s \<in> set vs" by simp_all
  have "map (\<lambda>v. if P v then length (filter (\<lambda>s. f s = v) (s # seeds)) else 0) vs =
        map (\<lambda>v. (if P v \<and> f s = v then 1 else 0)
                           + (if P v then length (filter (\<lambda>s. f s = v) seeds) else 0)) vs"
    by (intro map_cong[OF refl]) simp
  then have "sum_list (map (\<lambda>v. if P v then length (filter (\<lambda>s. f s = v) (s # seeds)) else 0) vs) =
        (if P (f s) then 1 else 0)
        + sum_list (map (\<lambda>v. if P v then length (filter (\<lambda>s. f s = v) seeds) else 0) vs)"
    by (simp only: sum_list_addf sum_list_one_class[OF assms(1) mem])
  then show ?case using IH by simp
qed

lemma uniform_classes:
  assumes "distinct vs" and "\<forall>s \<in> set seeds. f s \<in> set vs"
    and "\<forall>v \<in> set vs. length (filter (\<lambda>s. f s = v) seeds) = m"
  shows "length (filter (\<lambda>s. P (f s)) seeds) = m * length (filter P vs)"
proof -
  have "map (\<lambda>v. if P v then length (filter (\<lambda>s. f s = v) seeds) else 0) vs =
        map (\<lambda>v. if P v then m else 0) vs"
    by (intro map_cong[OF refl]) (simp add: assms(3))
  then show ?thesis
    unfolding count_by_class[OF assms(1,2)] by (simp only: sum_list_if_const)
qed

lemma distinct_draw_vectors: "distinct (draw_vectors n)"
proof (induction n)
  case 0
  show ?case by simp
next
  case (Suc n)
  let ?F = "\<lambda>rs. map (\<lambda>r. rs @ [r]) [0..<Suc n]"
  have hd: "\<And>a. ?F a ! 0 = a @ [0]"
    by (simp only: nth_map length_upt diff_zero zero_less_Suc nth_upt add_0)
  have inj: "inj_on ?F (set (draw_vectors n))"
  proof (rule inj_onI)
    fix a b assume "?F a = ?F b"
    then have "?F a ! 0 = ?F b ! 0" by (rule arg_cong)
    then show "a = b" unfolding hd by simp
  qed
  have d1: "distinct (map ?F (draw_vectors n))"
    using Suc inj by (simp only: distinct_map simp_thms)
  have d2: "\<And>ys. ys \<in> set (map ?F (draw_vectors n)) \<Longrightarrow> distinct ys"
  proof -
    fix ys assume "ys \<in> set (map ?F (draw_vectors n))"
    then obtain rs where ys: "ys = ?F rs" unfolding set_map by (rule imageE)
    have "inj_on (\<lambda>r. rs @ [r]) (set [0..<Suc n])" by (rule inj_onI) simp
    then show "distinct ys" unfolding ys by (simp only: distinct_map distinct_upt simp_thms)
  qed
  have d3: "\<And>ys zs. ys \<in> set (map ?F (draw_vectors n)) \<Longrightarrow> zs \<in> set (map ?F (draw_vectors n))
               \<Longrightarrow> ys \<noteq> zs \<Longrightarrow> set ys \<inter> set zs = {}"
  proof -
    fix ys zs
    assume y: "ys \<in> set (map ?F (draw_vectors n))" and z: "zs \<in> set (map ?F (draw_vectors n))"
      and ne: "ys \<noteq> zs"
    from y obtain a where ys: "ys = ?F a" unfolding set_map by (rule imageE)
    from z obtain b where zs: "zs = ?F b" unfolding set_map by (rule imageE)
    from ne have ab: "a \<noteq> b" unfolding ys zs by blast
    show "set ys \<inter> set zs = {}"
    proof (rule ccontr)
      assume "set ys \<inter> set zs \<noteq> {}"
      then obtain x where x1: "x \<in> set ys" and x2: "x \<in> set zs" by blast
      from x1 obtain r where "x = a @ [r]" unfolding ys set_map by (rule imageE)
      moreover from x2 obtain r' where "x = b @ [r']" unfolding zs set_map by (rule imageE)
      ultimately have "a = b" by simp
      with ab show False by simp
    qed
  qed
  show ?case
    unfolding draw_vectors.simps by (rule distinct_concat[OF d1 d2 d3])
qed

text \<open>The first loop in the fields of each dimension, and the split dimension of an update.\<close>

lemma candidates_eq:
  "candidates D point nval delta options dimen data0 =
     filter (\<lambda>i. dge (sf_max D (splitfilter (observed D point nval delta options dimen data0 ! i)))
                    (filter_val options)) [0..<dimen]"
  by (simp add: candidates_def is_candidate_def)

lemma observed_nth:
  assumes "dimen \<le> length data0" and "i < dimen"
  shows "observed D point nval delta options dimen data0 ! i
           = observe_dim D point nval delta options i (data0 ! i)"
  using assms by (simp add: observed_def)

lemma observe_dim_fields:
  "midpoint (observe_dim D point nval delta options i dp) = midpoint dp"
  "lowq (observe_dim D point nval delta options i dp) =
     (if dle (point ! i) (a_avg (midpoint dp)) then qvar_add D (lowq dp) nval else lowq dp)"
  "highq (observe_dim D point nval delta options i dp) =
     (if dle (point ! i) (a_avg (midpoint dp)) then highq dp else qvar_add D (highq dp) nval)"
  "lmid (observe_dim D point nval delta options i dp) =
     (if dle (point ! i) (a_avg (midpoint dp)) then avg_add D (lmid dp) (point ! i) else lmid dp)"
  "hmid (observe_dim D point nval delta options i dp) =
     (if dle (point ! i) (a_avg (midpoint dp)) then hmid dp else avg_add D (hmid dp) (point ! i))"
  "splitfilter (observe_dim D point nval delta options i dp) =
     sf_add D (splitfilter dp)
       (if dle (point ! i) (a_avg (midpoint dp)) then qvar_add D (lowq dp) nval else lowq dp)
       (if dle (point ! i) (a_avg (midpoint dp)) then highq dp else qvar_add D (highq dp) nval)
       (fmul D delta (indefference options))
       (lower_t options) (upper_t options) (ks_limit options) (filter_rate options)"
  by (simp_all add: observe_dim_def Let_def)

lemma chosen_dimension_split:
  assumes "org < length nodes" and "\<not> is_split (n_split (nodes ! org))"
    and "data0 = (case p_data (n_predictor (nodes ! org)) of
                    None \<Rightarrow> replicate dimen (qdata_new D) | Some d \<Rightarrow> d)"
    and "dimen \<le> length point" and "dimen \<le> length data0"
    and "\<forall>q v. 0 < q_cnt (qvar_add D q v)"
    and "cs = candidates D point nval delta options dimen data0"
    and "cs \<noteq> []"
  shows "chosen_dimension (node_update D point dimen nval nodes org delta options s) org
           = Some (pick_from 0 cs (draws (rand D) (length cs) s) 0)"
proof -
  let ?oq = "qvar_add D ((p_q (n_predictor (nodes ! org)))
               \<lparr>q_cnt := min (q_cnt (p_q (n_predictor (nodes ! org)))) (q_learn_rate options)\<rparr>) nval"
  let ?data = "observed D point nval delta options dimen data0"
  let ?svar = "pick_from 0 cs (draws (rand D) (length cs) s) 0"
  let ?leaf = "(nodes ! org)\<lparr>n_predictor :=
                 \<lparr>p_q = ?oq, p_cnt = p_cnt (n_predictor (nodes ! org)) + 1, p_data = Some ?data\<rparr>\<rparr>"
  note loop = update_loop_observed[OF assms(5), of D point nval delta options s, folded assms(7)]
  note upd = node_update_eq[OF assms(2,3,4,5) loop]
  have pos: "0 < q_cnt (p_q (n_predictor ?leaf))" using assms(6) by simp
  have len: "0 < length cs" using assms(8) by simp
  let ?sp = "\<lparr>is_split = True, s_var = ?svar, boundary = a_avg (midpoint (?data ! ?svar)),
               s_low = length nodes, s_high = length nodes + 1\<rparr>"
  let ?inner = "(set_correction D dimen ?data (?leaf\<lparr>n_split := ?sp\<rparr>))
                  \<lparr>n_predictor := (n_predictor ?leaf)\<lparr>p_data := None\<rparr>\<rparr>"
  let ?seeded = "for_loop 0 dimen (seed_midpoint D ?data ?svar)
                    (replicate dimen (qdata_new D), replicate dimen (qdata_new D))"
  let ?lo = "new_leaf (seed_q (p_q (n_predictor ?leaf)) (lowq (?data ! ?svar))) (fst ?seeded)"
  let ?hi = "new_leaf (seed_q (p_q (n_predictor ?leaf)) (highq (?data ! ?svar))) (snd ?seeded)"
  have "node_update D point dimen nval nodes org delta options s =
       (case split_leaf D dimen nodes org ?leaf ?data ?svar of
          Inl e \<Rightarrow> Inl e | Inr nodes' \<Rightarrow> Inr (nodes', after_draws (rand D) (length cs) s))"
    unfolding upd using len by simp
  then have eq: "node_update D point dimen nval nodes org delta options s =
       Inr (nodes[org := ?inner] @ [?lo, ?hi], after_draws (rand D) (length cs) s)"
    unfolding split_leaf_eq[OF pos] by (simp only: sum.case)
  have nth: "(nodes[org := ?inner] @ [?lo, ?hi]) ! org = ?inner"
    using assms(1) by (simp add: nth_append)
  have sp: "n_split ?inner = ?sp" by (simp add: set_correction_keeps)
  show ?thesis
    unfolding eq chosen_dimension_def by (simp only: sum.case prod.case nth sp) simp
qed

lemma reservoir_share:
  assumes "distinct cs" and "j < length cs"
    and "\<forall>v \<in> set (draw_vectors (length cs)).
            length (filter (\<lambda>s. residues (draws rnd (length cs) s) = v) seeds) = m"
  shows "length cs * length (filter (\<lambda>s. pick_from 0 cs (draws rnd (length cs) s) 0 = cs ! j) seeds)
           = length seeds"
proof -
  let ?n = "length cs"
  let ?f = "\<lambda>s. residues (draws rnd ?n s)"
  have mem: "\<forall>s \<in> set seeds. ?f s \<in> set (draw_vectors ?n)"
    by (simp add: residues_mem length_draws)
  have "length (filter (\<lambda>s. pick_from 0 cs (draws rnd ?n s) 0 = cs ! j) seeds) =
        length (filter (\<lambda>s. pick_from 0 cs (?f s) 0 = cs ! j) seeds)"
    by (simp only: residues_def pick_from_residues)
  also have "\<dots> = m * length (filter (\<lambda>v. pick_from 0 cs v 0 = cs ! j) (draw_vectors ?n))"
    by (rule uniform_classes[OF distinct_draw_vectors mem assms(3)])
  also have "\<dots> = m * fact (?n - 1)"
    by (simp only: reservoir_uniform[OF assms(1,2)])
  finally have share: "length (filter (\<lambda>s. pick_from 0 cs (draws rnd ?n s) 0 = cs ! j) seeds)
                         = m * fact (?n - 1)" .
  have "length seeds = length (filter (\<lambda>s. (\<lambda>v. True) (?f s)) seeds)" by simp
  also have "\<dots> = m * length (filter (\<lambda>v. True) (draw_vectors ?n))"
    by (rule uniform_classes[OF distinct_draw_vectors mem assms(3)])
  also have "\<dots> = m * fact ?n" by (simp add: length_draw_vectors)
  finally have total: "length seeds = m * fact ?n" .
  have "fact ?n = ?n * fact (?n - 1)" using assms(2) by (cases ?n) simp_all
  then show ?thesis unfolding share total by simp
qed

text \<open>
  C2. An update of a leaf first refreshes every dimension: the observation is added to the
  low or to the high side of the dimension, and the filter of the dimension is fed the two
  value statistics as they are after that. A dimension is a candidate when the maximum of
  its refreshed filter has reached the critical value. The update splits the leaf at most
  once, and exactly when there is a candidate: without one the leaf stays a leaf and the
  arena keeps its length; with one, the leaf becomes a split node and two leaves are
  appended. The split dimension is the one that reservoir sampling picks from the
  candidates in index order with the draws of the generator, so it is a candidate. The
  choice is uniform in the draws: over any collection of generator states from which the
  draws, reduced as the code reduces them (\<^verbatim>\<open>std::rand() % cnt\<close> for \<open>cnt = 1, \<dots>, n\<close>), fall
  equally often on each of their combinations, every one of the \<open>n\<close> candidates is chosen
  from exactly one \<open>n\<close>-th of the states.
\<close>

theorem split_iff_candidate_and_uniform_choice:
  assumes "org < length nodes" and "\<not> is_split (n_split (nodes ! org))"
    and "data0 = (case p_data (n_predictor (nodes ! org)) of
                    None \<Rightarrow> replicate dimen (qdata_new D) | Some d \<Rightarrow> d)"
    and "dimen \<le> length point" and "dimen \<le> length data0"
    and "\<forall>q v. 0 < q_cnt (qvar_add D q v)"
    and "for_loop 0 dimen (update_dim D point nval delta options) (data0, 0, 0, g) = (data, svar, cnt, g')"
    and "cs = filter (\<lambda>i. dge (sf_max D (splitfilter (data ! i))) (filter_val options)) [0..<dimen]"
  shows "(\<forall>i<dimen.
            midpoint (data ! i) = midpoint (data0 ! i)
          \<and> lowq (data ! i) =
              (if dle (point ! i) (a_avg (midpoint (data0 ! i)))
               then qvar_add D (lowq (data0 ! i)) nval else lowq (data0 ! i))
          \<and> highq (data ! i) =
              (if dle (point ! i) (a_avg (midpoint (data0 ! i)))
               then highq (data0 ! i) else qvar_add D (highq (data0 ! i)) nval)
          \<and> lmid (data ! i) =
              (if dle (point ! i) (a_avg (midpoint (data0 ! i)))
               then avg_add D (lmid (data0 ! i)) (point ! i) else lmid (data0 ! i))
          \<and> hmid (data ! i) =
              (if dle (point ! i) (a_avg (midpoint (data0 ! i)))
               then hmid (data0 ! i) else avg_add D (hmid (data0 ! i)) (point ! i))
          \<and> splitfilter (data ! i) =
              sf_add D (splitfilter (data0 ! i)) (lowq (data ! i)) (highq (data ! i))
                (fmul D delta (indefference options))
                (lower_t options) (upper_t options) (ks_limit options) (filter_rate options))
     \<and> cnt = length cs
     \<and> (cs = [] \<longrightarrow>
          (\<exists>leaf'. node_update D point dimen nval nodes org delta options g
                      = Inr (nodes[org := leaf'], g')
                  \<and> \<not> is_split (n_split leaf')))
     \<and> (cs \<noteq> [] \<longrightarrow>
          (\<exists>inner lo hi. node_update D point dimen nval nodes org delta options g
                      = Inr (nodes[org := inner] @ [lo, hi], g')
                  \<and> n_split inner =
                      \<lparr>is_split = True, s_var = svar,
                       boundary = a_avg (midpoint (data ! svar)),
                       s_low = length nodes, s_high = length nodes + 1\<rparr>
                  \<and> svar \<in> set cs
                  \<and> svar = pick_from 0 cs (draws (rand D) (length cs) g) 0
                  \<and> \<not> is_split (n_split lo) \<and> \<not> is_split (n_split hi)))
     \<and> (\<forall>seeds m.
          (\<forall>v \<in> set (draw_vectors (length cs)).
              length (filter (\<lambda>s. residues (draws (rand D) (length cs) s) = v) seeds) = m)
          \<longrightarrow> (\<forall>j<length cs.
                 length cs
                 * length (filter (\<lambda>s. chosen_dimension
                                         (node_update D point dimen nval nodes org delta options s) org
                                       = Some (cs ! j)) seeds)
                 = length seeds))"
proof -
  let ?oq = "qvar_add D ((p_q (n_predictor (nodes ! org)))
               \<lparr>q_cnt := min (q_cnt (p_q (n_predictor (nodes ! org)))) (q_learn_rate options)\<rparr>) nval"
  let ?obs = "observed D point nval delta options dimen data0"
  let ?cands = "candidates D point nval delta options dimen data0"
  note loop = update_loop_observed[OF assms(5), of D point nval delta options g]
  from assms(7)[unfolded loop] have data: "data = ?obs"
    and svar: "svar = pick_from 0 ?cands (draws (rand D) (length ?cands) g) 0"
    and cnt: "cnt = length ?cands"
    and g': "g' = after_draws (rand D) (length ?cands) g"
    by auto
  have cs: "cs = ?cands" unfolding assms(8) data candidates_eq ..
  have dist: "distinct cs" unfolding assms(8) by simp
  let ?leaf = "(nodes ! org)\<lparr>n_predictor :=
                 \<lparr>p_q = ?oq, p_cnt = p_cnt (n_predictor (nodes ! org)) + 1, p_data = Some data\<rparr>\<rparr>"
  note upd = node_update_eq[OF assms(2,3,4,5,7)]
  have one: "\<forall>i<dimen.
            midpoint (data ! i) = midpoint (data0 ! i)
          \<and> lowq (data ! i) =
              (if dle (point ! i) (a_avg (midpoint (data0 ! i)))
               then qvar_add D (lowq (data0 ! i)) nval else lowq (data0 ! i))
          \<and> highq (data ! i) =
              (if dle (point ! i) (a_avg (midpoint (data0 ! i)))
               then highq (data0 ! i) else qvar_add D (highq (data0 ! i)) nval)
          \<and> lmid (data ! i) =
              (if dle (point ! i) (a_avg (midpoint (data0 ! i)))
               then avg_add D (lmid (data0 ! i)) (point ! i) else lmid (data0 ! i))
          \<and> hmid (data ! i) =
              (if dle (point ! i) (a_avg (midpoint (data0 ! i)))
               then hmid (data0 ! i) else avg_add D (hmid (data0 ! i)) (point ! i))
          \<and> splitfilter (data ! i) =
              sf_add D (splitfilter (data0 ! i)) (lowq (data ! i)) (highq (data ! i))
                (fmul D delta (indefference options))
                (lower_t options) (upper_t options) (ks_limit options) (filter_rate options)"
  proof (intro allI impI)
    fix i assume i: "i < dimen"
    show "midpoint (data ! i) = midpoint (data0 ! i)
          \<and> lowq (data ! i) =
              (if dle (point ! i) (a_avg (midpoint (data0 ! i)))
               then qvar_add D (lowq (data0 ! i)) nval else lowq (data0 ! i))
          \<and> highq (data ! i) =
              (if dle (point ! i) (a_avg (midpoint (data0 ! i)))
               then highq (data0 ! i) else qvar_add D (highq (data0 ! i)) nval)
          \<and> lmid (data ! i) =
              (if dle (point ! i) (a_avg (midpoint (data0 ! i)))
               then avg_add D (lmid (data0 ! i)) (point ! i) else lmid (data0 ! i))
          \<and> hmid (data ! i) =
              (if dle (point ! i) (a_avg (midpoint (data0 ! i)))
               then hmid (data0 ! i) else avg_add D (hmid (data0 ! i)) (point ! i))
          \<and> splitfilter (data ! i) =
              sf_add D (splitfilter (data0 ! i)) (lowq (data ! i)) (highq (data ! i))
                (fmul D delta (indefference options))
                (lower_t options) (upper_t options) (ks_limit options) (filter_rate options)"
      unfolding data observed_nth[OF assms(5) i] by (simp only: observe_dim_fields simp_thms)
  qed
  have two: "cnt = length cs" unfolding cs by (rule cnt)
  have three: "cs = [] \<longrightarrow>
          (\<exists>leaf'. node_update D point dimen nval nodes org delta options g
                      = Inr (nodes[org := leaf'], g')
                  \<and> \<not> is_split (n_split leaf'))"
  proof
    assume "cs = []"
    then have "cnt = 0" using two by simp
    then have "node_update D point dimen nval nodes org delta options g =
       Inr (nodes[org := (nodes ! org)\<lparr>n_predictor :=
              \<lparr>p_q = ?oq, p_cnt = p_cnt (n_predictor (nodes ! org)) + 1,
               p_data = Some (rebalance D dimen data)\<rparr>\<rparr>], g')"
      unfolding upd by simp
    moreover have "\<not> is_split (n_split ((nodes ! org)\<lparr>n_predictor :=
              \<lparr>p_q = ?oq, p_cnt = p_cnt (n_predictor (nodes ! org)) + 1,
               p_data = Some (rebalance D dimen data)\<rparr>\<rparr>))"
      using assms(2) by simp
    ultimately show "\<exists>leaf'. node_update D point dimen nval nodes org delta options g
                      = Inr (nodes[org := leaf'], g') \<and> \<not> is_split (n_split leaf')"
      by blast
  qed
  have four: "cs \<noteq> [] \<longrightarrow>
          (\<exists>inner lo hi. node_update D point dimen nval nodes org delta options g
                      = Inr (nodes[org := inner] @ [lo, hi], g')
                  \<and> n_split inner =
                      \<lparr>is_split = True, s_var = svar,
                       boundary = a_avg (midpoint (data ! svar)),
                       s_low = length nodes, s_high = length nodes + 1\<rparr>
                  \<and> svar \<in> set cs
                  \<and> svar = pick_from 0 cs (draws (rand D) (length cs) g) 0
                  \<and> \<not> is_split (n_split lo) \<and> \<not> is_split (n_split hi))"
  proof
    assume ne: "cs \<noteq> []"
    then have pos_cnt: "0 < cnt" using two by simp
    have pos: "0 < q_cnt (p_q (n_predictor ?leaf))" using assms(6) by simp
    have pick: "svar = pick_from 0 cs (draws (rand D) (length cs) g) 0"
      unfolding cs by (rule svar)
    have mem: "svar \<in> set cs"
      unfolding pick by (rule pick_from_0_mem[OF _ ne]) (simp add: length_draws)
    let ?sp = "\<lparr>is_split = True, s_var = svar, boundary = a_avg (midpoint (data ! svar)),
                 s_low = length nodes, s_high = length nodes + 1\<rparr>"
    let ?inner = "(set_correction D dimen data (?leaf\<lparr>n_split := ?sp\<rparr>))
                    \<lparr>n_predictor := (n_predictor ?leaf)\<lparr>p_data := None\<rparr>\<rparr>"
    let ?seeded = "for_loop 0 dimen (seed_midpoint D data svar)
                      (replicate dimen (qdata_new D), replicate dimen (qdata_new D))"
    let ?lo = "new_leaf (seed_q (p_q (n_predictor ?leaf)) (lowq (data ! svar))) (fst ?seeded)"
    let ?hi = "new_leaf (seed_q (p_q (n_predictor ?leaf)) (highq (data ! svar))) (snd ?seeded)"
    from pos_cnt have "node_update D point dimen nval nodes org delta options g =
       (case split_leaf D dimen nodes org ?leaf data svar of
          Inl e \<Rightarrow> Inl e | Inr nodes' \<Rightarrow> Inr (nodes', g'))"
      unfolding upd by simp
    then have eq: "node_update D point dimen nval nodes org delta options g =
       Inr (nodes[org := ?inner] @ [?lo, ?hi], g')"
      unfolding split_leaf_eq[OF pos] by (simp only: sum.case)
    have p1: "n_split ?inner = ?sp" by (simp add: set_correction_keeps)
    have p2: "\<not> is_split (n_split ?lo)" "\<not> is_split (n_split ?hi)"
      by (simp_all add: new_leaf_def node_new_def)
    from eq p1 mem pick p2
    show "\<exists>inner lo hi. node_update D point dimen nval nodes org delta options g
                      = Inr (nodes[org := inner] @ [lo, hi], g')
                  \<and> n_split inner =
                      \<lparr>is_split = True, s_var = svar,
                       boundary = a_avg (midpoint (data ! svar)),
                       s_low = length nodes, s_high = length nodes + 1\<rparr>
                  \<and> svar \<in> set cs
                  \<and> svar = pick_from 0 cs (draws (rand D) (length cs) g) 0
                  \<and> \<not> is_split (n_split lo) \<and> \<not> is_split (n_split hi)"
      by blast
  qed
  have five: "\<forall>seeds m.
          (\<forall>v \<in> set (draw_vectors (length cs)).
              length (filter (\<lambda>s. residues (draws (rand D) (length cs) s) = v) seeds) = m)
          \<longrightarrow> (\<forall>j<length cs.
                 length cs
                 * length (filter (\<lambda>s. chosen_dimension
                                         (node_update D point dimen nval nodes org delta options s) org
                                       = Some (cs ! j)) seeds)
                 = length seeds)"
  proof (intro allI impI)
    fix seeds :: "'b list" and m j
    assume H: "\<forall>v \<in> set (draw_vectors (length cs)).
              length (filter (\<lambda>s. residues (draws (rand D) (length cs) s) = v) seeds) = m"
      and j: "j < length cs"
    from j have ne: "cs \<noteq> []" by auto
    have ch: "\<And>s. chosen_dimension (node_update D point dimen nval nodes org delta options s) org
                 = Some (pick_from 0 cs (draws (rand D) (length cs) s) 0)"
      by (rule chosen_dimension_split[OF assms(1-6) cs ne])
    show "length cs
          * length (filter (\<lambda>s. chosen_dimension
                                  (node_update D point dimen nval nodes org delta options s) org
                                = Some (cs ! j)) seeds)
          = length seeds"
      unfolding ch option.inject by (rule reservoir_share[OF dist j H])
  qed
  from one two three four five show ?thesis by (intro conjI)
qed

lemma ex_loop_two:
  "for_loop 0 2 (update_dim (ref_deps solver_fails) [Fin 1, Fin 1] (Fin 0) (Fin 1) (options_with (Fin 1)))
     ([low_data (Fin 10) 1 (Fin 0), low_data (Fin 10) 1 (Fin 0)], 0, 0, [5, 4])
   = ([both_data (Fin 10) (Fin 0) (Fin 0) (Fin 1) (Fin 10),
       both_data (Fin 10) (Fin 0) (Fin 0) (Fin 1) (Fin 10)], 1, 2, [])"
proof -
  have m: "(4::nat) mod Suc (Suc 0) = 0" by presburger
  show ?thesis
    by (simp add: for_loop.simps update_dim_def observe_dim_def ref_deps_def low_data_def
        both_data_def options_with_def ref_qvar_add_def ref_avg_add_def ref_sf_add_def dge_def
        avg_zero_def qvar_zero_def Let_def numeral_2_eq_2 m)
qed

lemma ex_two_candidates:
  "filter (\<lambda>i. dge (sf_max (ref_deps solver_fails)
                     (splitfilter ([both_data (Fin 10) (Fin 0) (Fin 0) (Fin 1) (Fin 10),
                                    both_data (Fin 10) (Fin 0) (Fin 0) (Fin 1) (Fin 10)] ! i)))
                   (filter_val (options_with (Fin 1)))) [0..<2] = [0, 1]"
proof -
  have upt: "[0..<2] = [0, Suc 0]" by (simp add: numeral_2_eq_2)
  show ?thesis
    unfolding upt by (simp add: ref_deps_def both_data_def options_with_def dge_def)
qed

lemma ex_two_seeds:
  "\<forall>v \<in> set (draw_vectors (length [0, 1 :: nat])).
      length (filter (\<lambda>s. residues (draws (rand (ref_deps solver_fails)) (length [0, 1 :: nat]) s) = v)
                [[5, 4], [5, 3]]) = 1"
proof -
  have m: "(4::nat) mod Suc (Suc 0) = 0" "(3::nat) mod Suc (Suc 0) = 1" by presburger+
  have len: "length [0, 1 :: nat] = 2" by simp
  have dv: "draw_vectors 2 = [[0, 0], [0, 1]]"
    by (simp add: numeral_2_eq_2 upt_rec)
  have r1: "residues (draws (rand (ref_deps solver_fails)) 2 [5, 4]) = [0, 0]"
    by (simp add: residues_def ref_deps_def m numeral_2_eq_2)
  have r2: "residues (draws (rand (ref_deps solver_fails)) 2 [5, 3]) = [0, 1]"
    by (simp add: residues_def ref_deps_def m numeral_2_eq_2)
  show ?thesis unfolding len dv by (simp add: r1 r2)
qed

theorem split_iff_candidate_and_uniform_choice_witness:
  "splitfilter (low_data (Fin 10) 1 (Fin 0)) = Fin 0
   \<and> \<not> dge (Fin 0) (filter_val (options_with (Fin 1)))
   \<and> (\<exists>inner lo hi.
         node_update (ref_deps solver_fails) [Fin 1, Fin 1] 2 (Fin 0) [seen_leaf_two (Fin 10) 1 (Fin 0)]
           0 (Fin 1) (options_with (Fin 1)) [5, 4] = Inr ([inner, lo, hi], [])
         \<and> is_split (n_split inner) \<and> s_var (n_split inner) = 1)
   \<and> length (filter (\<lambda>s. chosen_dimension
                 (node_update (ref_deps solver_fails) [Fin 1, Fin 1] 2 (Fin 0)
                    [seen_leaf_two (Fin 10) 1 (Fin 0)] 0 (Fin 1) (options_with (Fin 1)) s) 0 = Some 0)
               [[5, 4], [5, 3]]) = 1
   \<and> length (filter (\<lambda>s. chosen_dimension
                 (node_update (ref_deps solver_fails) [Fin 1, Fin 1] 2 (Fin 0)
                    [seen_leaf_two (Fin 10) 1 (Fin 0)] 0 (Fin 1) (options_with (Fin 1)) s) 0 = Some 1)
               [[5, 4], [5, 3]]) = 1"
proof -
  let ?D = "ref_deps solver_fails"
  let ?nodes = "[seen_leaf_two (Fin 10) 1 (Fin 0)]"
  let ?upd = "\<lambda>s. node_update ?D [Fin 1, Fin 1] 2 (Fin 0) ?nodes 0 (Fin 1) (options_with (Fin 1)) s"
  have a1: "0 < length ?nodes" by simp
  have a2: "\<not> is_split (n_split (?nodes ! 0))" by (simp add: seen_leaf_two_def node_new_def)
  have a3: "[low_data (Fin 10) 1 (Fin 0), low_data (Fin 10) 1 (Fin 0)] =
     (case p_data (n_predictor (?nodes ! 0)) of None \<Rightarrow> replicate 2 (qdata_new ?D) | Some d \<Rightarrow> d)"
    by (simp add: seen_leaf_two_def node_new_def)
  have p4: "2 \<le> length [Fin 1, Fin 1]" by simp
  have p5: "2 \<le> length [low_data (Fin 10) 1 (Fin 0), low_data (Fin 10) 1 (Fin 0)]" by simp
  note th = split_iff_candidate_and_uniform_choice[where D = ?D and nodes = ?nodes and org = 0
      and dimen = 2 and point = "[Fin 1, Fin 1]" and nval = "Fin 0" and delta = "Fin 1"
      and options = "options_with (Fin 1)" and g = "[5, 4]" and cs = "[0, 1]",
      OF a1 a2 a3 p4 p5 ref_qvar_add_pos ex_loop_two ex_two_candidates[symmetric]]
  note th4 = th[THEN conjunct2, THEN conjunct2, THEN conjunct2, THEN conjunct1]
  note th5 = th[THEN conjunct2, THEN conjunct2, THEN conjunct2, THEN conjunct2,
      THEN spec, THEN spec, THEN mp, OF ex_two_seeds]
  have split: "\<exists>inner lo hi. ?upd [5, 4] = Inr (?nodes[0 := inner] @ [lo, hi], [])
         \<and> n_split inner =
              \<lparr>is_split = True, s_var = 1,
               boundary = a_avg (midpoint
                 ([both_data (Fin 10) (Fin 0) (Fin 0) (Fin 1) (Fin 10),
                   both_data (Fin 10) (Fin 0) (Fin 0) (Fin 1) (Fin 10)] ! 1)),
               s_low = length ?nodes, s_high = length ?nodes + 1\<rparr>"
    using th4 by auto
  then obtain inner lo hi where
    "?upd [5, 4] = Inr (?nodes[0 := inner] @ [lo, hi], [])"
    "s_var (n_split inner) = 1" "is_split (n_split inner)"
    by force
  then have one: "\<exists>inner lo hi. ?upd [5, 4] = Inr ([inner, lo, hi], [])
         \<and> is_split (n_split inner) \<and> s_var (n_split inner) = 1"
    by simp
  note share = th5
  from share[rule_format, of 0]
  have c0: "length (filter (\<lambda>s. chosen_dimension (?upd s) 0 = Some 0) [[5, 4], [5, 3]]) = 1"
    by simp
  from share[rule_format, of 1]
  have c1: "length (filter (\<lambda>s. chosen_dimension (?upd s) 0 = Some 1) [[5, 4], [5, 3]]) = 1"
    by simp
  have f0: "splitfilter (low_data (Fin 10) 1 (Fin 0)) = Fin 0" by (simp add: low_data_def)
  have f1: "\<not> dge (Fin 0) (filter_val (options_with (Fin 1)))"
    by (simp add: dge_def options_with_def)
  from f0 f1 one c0 c1 show ?thesis by (intro conjI)
qed

subsection \<open>The claims on the correction\<close>

lemma set_correction_result:
  "n_correction (set_correction D dimen data n) =
     (if deq (q_variance (p_q (n_predictor n))) (Fin 0) \<or> \<not> glp_create_prob D then n_correction n
      else if fst (glp_simplex D (correction_lp D dimen data (p_q (n_predictor n)))) = 0
              \<and> fst (snd (glp_simplex D (correction_lp D dimen data (p_q (n_predictor n))))) = GLP_OPT
      then Some (map (\<lambda>i. snd (snd (glp_simplex D (correction_lp D dimen data (p_q (n_predictor n))))) (i + 1))
                   [0..<dimen + 1])
      else None)"
  by (simp add: set_correction_def split: prod.splits)

text \<open>
  C5. When an update splits a leaf (which, as every leaf, has no correction yet), the
  update returns, and the split node has a correction only if the value variance of the
  leaf is not zero, the problem could be created, and the solver returned \<open>0\<close> with the
  status \<open>GLP_OPT\<close>; the correction then is the list of the first \<open>dimen + 1\<close> primal values,
  one per dimension and one for the intercept. With a zero variance the solver is not
  consulted: the result does not depend on it.
\<close>

theorem correction_absent_unless_optimal:
  assumes "org < length nodes" and "\<not> is_split (n_split (nodes ! org))"
    and "n_correction (nodes ! org) = None"
    and "data0 = (case p_data (n_predictor (nodes ! org)) of
                    None \<Rightarrow> replicate dimen (qdata_new D) | Some d \<Rightarrow> d)"
    and "dimen \<le> length point" and "dimen \<le> length data0"
    and "\<forall>q v. 0 < q_cnt (qvar_add D q v)"
    and "for_loop 0 dimen (update_dim D point nval delta options) (data0, 0, 0, g) = (data, svar, cnt, g')"
    and "0 < cnt"
    and "oq = qvar_add D ((p_q (n_predictor (nodes ! org)))
               \<lparr>q_cnt := min (q_cnt (p_q (n_predictor (nodes ! org)))) (q_learn_rate options)\<rparr>) nval"
    and "solved = glp_simplex D (correction_lp D dimen data oq)"
  shows "\<exists>nodes'. node_update D point dimen nval nodes org delta options g = Inr (nodes', g')
     \<and> is_split (n_split (nodes' ! org))
     \<and> n_correction (nodes' ! org) =
         (if deq (q_variance oq) (Fin 0) then None
          else if \<not> glp_create_prob D then None
          else if fst solved = 0 \<and> fst (snd solved) = GLP_OPT
          then Some (map (\<lambda>i. snd (snd solved) (i + 1)) [0..<dimen + 1])
          else None)
     \<and> (n_correction (nodes' ! org) \<noteq> None \<longrightarrow>
           fst solved = 0 \<and> fst (snd solved) = GLP_OPT \<and> \<not> deq (q_variance oq) (Fin 0)
           \<and> length (the (n_correction (nodes' ! org))) = dimen + 1)"
proof -
  let ?leaf = "(nodes ! org)\<lparr>n_predictor :=
                 \<lparr>p_q = oq, p_cnt = p_cnt (n_predictor (nodes ! org)) + 1, p_data = Some data\<rparr>\<rparr>"
  let ?sp = "\<lparr>is_split = True, s_var = svar, boundary = a_avg (midpoint (data ! svar)),
               s_low = length nodes, s_high = length nodes + 1\<rparr>"
  let ?inner = "(set_correction D dimen data (?leaf\<lparr>n_split := ?sp\<rparr>))
                  \<lparr>n_predictor := (n_predictor ?leaf)\<lparr>p_data := None\<rparr>\<rparr>"
  let ?seeded = "for_loop 0 dimen (seed_midpoint D data svar)
                    (replicate dimen (qdata_new D), replicate dimen (qdata_new D))"
  let ?lo = "new_leaf (seed_q (p_q (n_predictor ?leaf)) (lowq (data ! svar))) (fst ?seeded)"
  let ?hi = "new_leaf (seed_q (p_q (n_predictor ?leaf)) (highq (data ! svar))) (snd ?seeded)"
  have pos: "0 < q_cnt (p_q (n_predictor ?leaf))" using assms(7,10) by simp
  have "node_update D point dimen nval nodes org delta options g =
      (case split_leaf D dimen nodes org ?leaf data svar of
         Inl e \<Rightarrow> Inl e | Inr nodes' \<Rightarrow> Inr (nodes', g'))"
    using assms(9) by (simp add: node_update_eq[OF assms(2,4,5,6,8)] assms(10))
  then have eq: "node_update D point dimen nval nodes org delta options g =
      Inr (nodes[org := ?inner] @ [?lo, ?hi], g')"
    unfolding split_leaf_eq[OF pos] by (simp only: sum.case)
  have at: "(nodes[org := ?inner] @ [?lo, ?hi]) ! org = ?inner"
    using assms(1) by (simp add: nth_append)
  have sp: "is_split (n_split ?inner)" by (simp add: set_correction_keeps)
  define cr where "cr = n_correction ?inner"
  have corr: "cr =
         (if deq (q_variance oq) (Fin 0) then None
          else if \<not> glp_create_prob D then None
          else if fst solved = 0 \<and> fst (snd solved) = GLP_OPT
          then Some (map (\<lambda>i. snd (snd solved) (i + 1)) [0..<dimen + 1])
          else None)"
    unfolding cr_def using assms(3) by (simp add: set_correction_result assms(11))
  have only: "cr \<noteq> None \<longrightarrow>
           fst solved = 0 \<and> fst (snd solved) = GLP_OPT \<and> \<not> deq (q_variance oq) (Fin 0)
           \<and> length (the cr) = dimen + 1"
    by (simp add: corr)
  have at': "n_correction ((nodes[org := ?inner] @ [?lo, ?hi]) ! org) = cr"
    unfolding at cr_def ..
  have sp': "is_split (n_split ((nodes[org := ?inner] @ [?lo, ?hi]) ! org))"
    unfolding at by (rule sp)
  show ?thesis
    apply (rule exI[of _ "nodes[org := ?inner] @ [?lo, ?hi]"])
    unfolding at'
    using eq sp' corr only by blast
qed

lemma ex_loop_split:
  "for_loop 0 1 (update_dim (ref_deps solver) [Fin 1] (Fin 0) (Fin 1) (options_with (Fin 1)))
     ([low_data (Fin 10) 1 (Fin 0)], 0, 0, [])
   = ([both_data (Fin 10) (Fin 0) (Fin 0) (Fin 1) (Fin 10)], 0, 1, [])"
  by (simp add: for_loop.simps update_dim_def observe_dim_def ref_deps_def low_data_def
      both_data_def options_with_def ref_qvar_add_def ref_avg_add_def ref_sf_add_def dge_def
      avg_zero_def qvar_zero_def Let_def)

lemma ex_oq_split:
  "\<lparr>q_avg = Fin 5, q_cnt = 2, q_variance = Fin 25\<rparr> =
     qvar_add (ref_deps solver) ((p_q (n_predictor ([seen_leaf (Fin 10) 1 (Fin 0)] ! 0)))
        \<lparr>q_cnt := min (q_cnt (p_q (n_predictor ([seen_leaf (Fin 10) 1 (Fin 0)] ! 0))))
                      (q_learn_rate (options_with (Fin 1)))\<rparr>) (Fin 0)"
  by (simp add: seen_leaf_def node_new_def ref_deps_def ref_qvar_add_def options_with_def Let_def)

theorem correction_absent_unless_optimal_witness:
  "(\<exists>nodes'. node_update (ref_deps (solver_gives [Fin 0, Fin 1, Fin 2])) [Fin 1] 1 (Fin 0)
                 [seen_leaf (Fin 10) 1 (Fin 0)] 0 (Fin 1) (options_with (Fin 1)) [] = Inr (nodes', [])
             \<and> n_correction (nodes' ! 0) = Some [Fin 1, Fin 2])
   \<and> (\<exists>nodes'. node_update (ref_deps solver_fails) [Fin 1] 1 (Fin 0)
                 [seen_leaf (Fin 10) 1 (Fin 0)] 0 (Fin 1) (options_with (Fin 1)) [] = Inr (nodes', [])
             \<and> n_correction (nodes' ! 0) = None)"
proof -
  let ?nodes = "[seen_leaf (Fin 10) 1 (Fin 0)]"
  have a1: "0 < length ?nodes" by simp
  have a2: "\<not> is_split (n_split (?nodes ! 0))" by (simp add: seen_leaf_def node_new_def)
  have a3: "n_correction (?nodes ! 0) = None" by (simp add: seen_leaf_def node_new_def)
  have a4: "\<And>D :: (dbl, nat list) deps. [low_data (Fin 10) 1 (Fin 0)] =
     (case p_data (n_predictor (?nodes ! 0)) of None \<Rightarrow> replicate 1 (qdata_new D) | Some d \<Rightarrow> d)"
    by (simp add: seen_leaf_def node_new_def)
  have b5: "1 \<le> length [Fin 1]" by simp
  have b6: "1 \<le> length [low_data (Fin 10) 1 (Fin 0)]" by simp
  have b9: "(0::nat) < 1" by simp
  have nz: "\<not> deq (q_variance \<lparr>q_avg = Fin 5, q_cnt = 2, q_variance = Fin 25\<rparr>) (Fin 0)"
    by (simp add: deq_def)
  have cp: "\<And>solver. glp_create_prob (ref_deps solver)" by (simp add: ref_deps_def)
  have s1: "\<And>lp. glp_simplex (ref_deps (solver_gives [Fin 0, Fin 1, Fin 2])) lp =
              (0, GLP_OPT, (\<lambda>j. if j < length [Fin 0, Fin 1, Fin 2] then [Fin 0, Fin 1, Fin 2] ! j else Fin 0))"
    unfolding ref_deps_def solver_gives_def by (simp del: list.size)
  have s2: "\<And>lp. glp_simplex (ref_deps solver_fails) lp = (0, GLP_NOFEAS, (\<lambda>j. Fin 0))"
    by (simp add: ref_deps_def solver_fails_def)
  have m: "map (\<lambda>i. (if i + 1 < length [Fin 0, Fin 1, Fin 2] then [Fin 0, Fin 1, Fin 2] ! (i + 1) else Fin 0)) [0..<1 + 1]
           = [Fin 1, Fin 2]"
    by (simp add: upt_rec)
  note th1 = correction_absent_unless_optimal[where D = "ref_deps (solver_gives [Fin 0, Fin 1, Fin 2])"
      and nodes = ?nodes and org = 0 and dimen = 1 and point = "[Fin 1]" and nval = "Fin 0"
      and delta = "Fin 1" and options = "options_with (Fin 1)" and g = "[]",
      OF a1 a2 a3 a4 b5 b6 ref_qvar_add_pos ex_loop_split b9 ex_oq_split refl]
  note th2 = correction_absent_unless_optimal[where D = "ref_deps solver_fails"
      and nodes = ?nodes and org = 0 and dimen = 1 and point = "[Fin 1]" and nval = "Fin 0"
      and delta = "Fin 1" and options = "options_with (Fin 1)" and g = "[]",
      OF a1 a2 a3 a4 b5 b6 ref_qvar_add_pos ex_loop_split b9 ex_oq_split refl]
  have c1: "(if deq (q_variance \<lparr>q_avg = Fin 5, q_cnt = 2, q_variance = Fin 25\<rparr>) (Fin 0) then None
          else if \<not> glp_create_prob (ref_deps (solver_gives [Fin 0, Fin 1, Fin 2])) then None
          else if fst (0 :: int, GLP_OPT, (\<lambda>j. if j < length [Fin 0, Fin 1, Fin 2] then [Fin 0, Fin 1, Fin 2] ! j else Fin 0)) = 0
                \<and> fst (snd (0 :: int, GLP_OPT, (\<lambda>j. if j < length [Fin 0, Fin 1, Fin 2] then [Fin 0, Fin 1, Fin 2] ! j else Fin 0))) = GLP_OPT
          then Some (map (\<lambda>i. snd (snd (0 :: int, GLP_OPT, (\<lambda>j. if j < length [Fin 0, Fin 1, Fin 2] then [Fin 0, Fin 1, Fin 2] ! j else Fin 0))) (i + 1)) [0..<1 + 1])
          else None) = Some [Fin 1, Fin 2]"
    using nz cp m by simp
  have c2: "(if deq (q_variance \<lparr>q_avg = Fin 5, q_cnt = 2, q_variance = Fin 25\<rparr>) (Fin 0) then None
          else if \<not> glp_create_prob (ref_deps solver_fails) then None
          else if fst (0 :: int, GLP_NOFEAS, (\<lambda>j. Fin 0)) = 0
                \<and> fst (snd (0 :: int, GLP_NOFEAS, (\<lambda>j. Fin 0))) = GLP_OPT
          then Some (map (\<lambda>i. snd (snd (0 :: int, GLP_NOFEAS, (\<lambda>j. Fin 0))) (i + 1)) [0..<1 + 1])
          else None) = None"
    by simp
  from th1[unfolded s1 c1] obtain n1 where
    "node_update (ref_deps (solver_gives [Fin 0, Fin 1, Fin 2])) [Fin 1] 1 (Fin 0)
                 ?nodes 0 (Fin 1) (options_with (Fin 1)) [] = Inr (n1, [])"
    "n_correction (n1 ! 0) = Some [Fin 1, Fin 2]"
    by blast
  then have one: "\<exists>nodes'. node_update (ref_deps (solver_gives [Fin 0, Fin 1, Fin 2])) [Fin 1] 1 (Fin 0)
                 ?nodes 0 (Fin 1) (options_with (Fin 1)) [] = Inr (nodes', [])
             \<and> n_correction (nodes' ! 0) = Some [Fin 1, Fin 2]"
    by blast
  from th2[unfolded s2 c2] obtain n2 where
    "node_update (ref_deps solver_fails) [Fin 1] 1 (Fin 0)
                 ?nodes 0 (Fin 1) (options_with (Fin 1)) [] = Inr (n2, [])"
    "n_correction (n2 ! 0) = None"
    by blast
  then have two: "\<exists>nodes'. node_update (ref_deps solver_fails) [Fin 1] 1 (Fin 0)
                 ?nodes 0 (Fin 1) (options_with (Fin 1)) [] = Inr (nodes', [])
             \<and> n_correction (nodes' ! 0) = None"
    by blast
  from one two show ?thesis by blast
qed

text \<open>
  C4. With two dimensions that each have one observation on each side, the row of
  (dimension 1, low side) is row 3. Its own slack columns are 5 and 7; the row also has
  the coefficient 1 in column 8, the positive slack of (dimension 0, high side), which row 2
  had set and which the reset after row 2 did not clear: the reset clears
  \<^verbatim>\<open>row[dimen + 2 + d + (low ? 0 : dimen)]\<close>, the entry set was
  \<^verbatim>\<open>row[dimen + 2 + d + (low ? 0 : dimen*2)]\<close>. So the constraint of row 3 is not of the form
  linear combination + slack_pos - slack_neg = mean. Column 8 never gets an objective
  coefficient either.
\<close>

theorem correction_lp_stale_slack:
  "lp_mat_row (correction_lp (ref_deps solver_fails) 2
      [both_data (Fin 1) (Fin 0) (Fin 3) (Fin 2) (Fin 0), both_data (Fin 1) (Fin 0) (Fin 3) (Fin 2) (Fin 0)]
      \<lparr>q_avg = Fin 2, q_cnt = 2, q_variance = Fin 1\<rparr>) 2
   = [Fin 0, Fin 2, Fin 1, Fin 1, Fin 0, Fin 0, Fin 0, Fin 0, Fin 1, Fin 0, Fin (- 1), Fin 0]
   \<and> lp_mat_row (correction_lp (ref_deps solver_fails) 2
      [both_data (Fin 1) (Fin 0) (Fin 3) (Fin 2) (Fin 0), both_data (Fin 1) (Fin 0) (Fin 3) (Fin 2) (Fin 0)]
      \<lparr>q_avg = Fin 2, q_cnt = 2, q_variance = Fin 1\<rparr>) 3
   = [Fin 0, Fin 1, Fin 0, Fin 1, Fin 0, Fin 1, Fin 0, Fin (- 1), Fin 1, Fin 0, Fin 0, Fin 0]
   \<and> lp_obj_coef (correction_lp (ref_deps solver_fails) 2
      [both_data (Fin 1) (Fin 0) (Fin 3) (Fin 2) (Fin 0), both_data (Fin 1) (Fin 0) (Fin 3) (Fin 2) (Fin 0)]
      \<lparr>q_avg = Fin 2, q_cnt = 2, q_variance = Fin 1\<rparr>) 8 = Fin 0"
  by (simp add: correction_lp_def for_loop.simps add_dimension_def add_side_def fill_weight_def
      bound_column_def set_col_bnds_def set_obj_coef_def glp_empty_def Let_def
      ref_deps_def ref_avg_merge_def both_data_def numeral_eq_Suc)

subsection \<open>The best value\<close>







lemma sorted_labels_nth_less:
  assumes "sorted_wrt (<) (map e_label mapping)" and "i < j" and "j < length mapping"
  shows "e_label (mapping ! i) < e_label (mapping ! j)"
proof -
  from assms have "map e_label mapping ! i < map e_label mapping ! j"
    by (simp add: sorted_wrt_iff_nth_less)
  with assms show ?thesis by simp
qed




lemma finite_finite_means: "finite (finite_means t point L)"
proof -
  have "finite_means t point L \<subseteq>
        (\<lambda>el. case leaf_mean (t_nodes t) point (e_nid el) of Fin x \<Rightarrow> x | _ \<Rightarrow> 0) ` set (t_mapping t)"
    by (force simp: finite_means_def)
  then show ?thesis by (rule finite_subset) simp
qed















subsection \<open>Updates keep the tree well-formed\<close>

lemma wf_node_mono: "wf_node dimen sz i n \<Longrightarrow> sz \<le> sz' \<Longrightarrow> wf_node dimen sz' i n"
  by (auto simp: wf_node_def split: if_splits)

lemma wf_node_new_leaf:
  "dimen \<le> length data \<Longrightarrow> wf_node dimen sz i (new_leaf q data)"
  by (simp add: wf_node_def new_leaf_def node_new_def)

lemma wf_node_node_new: "wf_node dimen sz i node_new"
  by (simp add: wf_node_def node_new_def)

lemma candidates_less:
  "i \<in> set (candidates D point nval delta options dimen data0) \<Longrightarrow> i < dimen"
  by (simp add: candidates_def)

lemma length_observed: "length (observed D point nval delta options dimen data0) = length data0"
  by (simp add: observed_def)

lemma node_update_wf:
  assumes wf: "wf_nodes dimen nodes" and org: "org < length nodes"
    and leaf: "\<not> is_split (n_split (nodes ! org))"
    and pt: "dimen \<le> length point"
    and obs: "\<forall>q v. 0 < q_cnt (qvar_add D q v)"
  shows "\<exists>nodes' g'. node_update D point dimen nval nodes org delta options g = Inr (nodes', g')
           \<and> wf_nodes dimen nodes' \<and> length nodes \<le> length nodes'"
proof -
  define data0 where "data0 = (case p_data (n_predictor (nodes ! org)) of
                    None \<Rightarrow> replicate dimen (qdata_new D) | Some d \<Rightarrow> d)"
  from wf org have wfo: "wf_node dimen (length nodes) org (nodes ! org)"
    by (simp add: wf_nodes_def)
  with leaf have corr: "n_correction (nodes ! org) = None"
    and d0: "dimen \<le> length data0"
    by (auto simp: wf_node_def data0_def split: option.splits)
  define cs where "cs = candidates D point nval delta options dimen data0"
  let ?data = "observed D point nval delta options dimen data0"
  let ?oq = "qvar_add D ((p_q (n_predictor (nodes ! org)))
               \<lparr>q_cnt := min (q_cnt (p_q (n_predictor (nodes ! org)))) (q_learn_rate options)\<rparr>) nval"
  let ?svar = "pick_from 0 cs (draws (rand D) (length cs) g) 0"
  let ?leaf = "(nodes ! org)\<lparr>n_predictor :=
                 \<lparr>p_q = ?oq, p_cnt = p_cnt (n_predictor (nodes ! org)) + 1, p_data = Some ?data\<rparr>\<rparr>"
  note loop = update_loop_observed[OF d0, of D point nval delta options g, folded cs_def]
  note upd = node_update_eq[OF leaf data0_def pt d0 loop]
  have others: "\<And>i n sz. i < length nodes \<Longrightarrow> length nodes \<le> sz \<Longrightarrow>
                  wf_node dimen sz i (nodes ! i)"
    using wf by (auto simp: wf_nodes_def intro: wf_node_mono)
  show ?thesis
  proof (cases "cs = []")
    case True
    let ?new = "(nodes ! org)\<lparr>n_predictor :=
              \<lparr>p_q = ?oq, p_cnt = p_cnt (n_predictor (nodes ! org)) + 1,
               p_data = Some (rebalance D dimen ?data)\<rparr>\<rparr>"
    have eq: "node_update D point dimen nval nodes org delta options g = Inr (nodes[org := ?new], g)"
      unfolding upd using True by simp
    have len: "dimen \<le> length (rebalance D dimen ?data)"
      using d0 by (simp add: length_rebalance length_observed)
    have new: "\<And>sz. wf_node dimen sz org ?new"
      using leaf corr len by (simp add: wf_node_def)
    have "wf_nodes dimen (nodes[org := ?new])"
      unfolding wf_nodes_def
    proof (intro allI impI)
      fix i assume "i < length (nodes[org := ?new])"
      then have i: "i < length nodes" by simp
      show "wf_node dimen (length (nodes[org := ?new])) i (nodes[org := ?new] ! i)"
      proof (cases "i = org")
        case True
        with i new show ?thesis by simp
      next
        case False
        with i others[OF i, of "length nodes"] show ?thesis by simp
      qed
    qed
    with eq show ?thesis by simp
  next
    case ne: False
    let ?sp = "\<lparr>is_split = True, s_var = ?svar, boundary = a_avg (midpoint (?data ! ?svar)),
                 s_low = length nodes, s_high = length nodes + 1\<rparr>"
    let ?inner = "(set_correction D dimen ?data (?leaf\<lparr>n_split := ?sp\<rparr>))
                    \<lparr>n_predictor := (n_predictor ?leaf)\<lparr>p_data := None\<rparr>\<rparr>"
    let ?seeded = "for_loop 0 dimen (seed_midpoint D ?data ?svar)
                      (replicate dimen (qdata_new D), replicate dimen (qdata_new D))"
    let ?lo = "new_leaf (seed_q (p_q (n_predictor ?leaf)) (lowq (?data ! ?svar))) (fst ?seeded)"
    let ?hi = "new_leaf (seed_q (p_q (n_predictor ?leaf)) (highq (?data ! ?svar))) (snd ?seeded)"
    let ?nodes' = "nodes[org := ?inner] @ [?lo, ?hi]"
    have pos: "0 < q_cnt (p_q (n_predictor ?leaf))" using obs by simp
    have mem: "?svar \<in> set cs"
      by (rule pick_from_0_mem[OF _ ne]) (simp add: length_draws)
    then have sv: "?svar < dimen" unfolding cs_def by (rule candidates_less)
    from ne have "node_update D point dimen nval nodes org delta options g =
       (case split_leaf D dimen nodes org ?leaf ?data ?svar of
          Inl e \<Rightarrow> Inl e | Inr nodes' \<Rightarrow> Inr (nodes', after_draws (rand D) (length cs) g))"
      unfolding upd by simp
    then have eq: "node_update D point dimen nval nodes org delta options g =
       Inr (?nodes', after_draws (rand D) (length cs) g)"
      unfolding split_leaf_eq[OF pos] by (simp only: sum.case)
    have len': "length ?nodes' = length nodes + 2" by simp
    have inner: "wf_node dimen (length nodes + 2) org ?inner"
      using org sv by (simp add: wf_node_def set_correction_keeps)
    have seeded: "length (fst ?seeded) = dimen" "length (snd ?seeded) = dimen"
      using seed_loop_length[of dimen D ?data ?svar "replicate dimen (qdata_new D)"
          "replicate dimen (qdata_new D)"] by simp_all
    have lo: "\<And>i. wf_node dimen (length nodes + 2) i ?lo"
      by (rule wf_node_new_leaf) (simp add: seeded)
    have hi: "\<And>i. wf_node dimen (length nodes + 2) i ?hi"
      by (rule wf_node_new_leaf) (simp add: seeded)
    have "wf_nodes dimen ?nodes'"
      unfolding wf_nodes_def len'
    proof (intro allI impI)
      fix i assume i: "i < length nodes + 2"
      consider "i < length nodes" "i \<noteq> org" | "i = org" | "i = length nodes" | "i = length nodes + 1"
        using i by linarith
      then show "wf_node dimen (length nodes + 2) i (?nodes' ! i)"
      proof cases
        case 1
        then have "?nodes' ! i = nodes ! i" by (simp add: nth_append)
        with others[OF 1(1), of "length nodes + 2"] show ?thesis by simp
      next
        case 2
        then have "?nodes' ! i = ?inner" using org by (simp add: nth_append)
        with inner 2 show ?thesis by simp
      next
        case 3
        then have "?nodes' ! i = ?lo" by (simp add: nth_append)
        with lo show ?thesis by simp
      next
        case 4
        then have "?nodes' ! i = ?hi" by (simp add: nth_append)
        with hi show ?thesis by simp
      qed
    qed
    with eq len' show ?thesis by simp
  qed
qed

subsection \<open>The label index\<close>

lemma lower_bound_found_iff:
  assumes srt: "sorted_wrt (<) (map e_label xs)"
  shows "(lower_bound xs l < length xs \<and> e_label (xs ! lower_bound xs l) = l)
         \<longleftrightarrow> l \<in> e_label ` set xs"
proof
  assume "lower_bound xs l < length xs \<and> e_label (xs ! lower_bound xs l) = l"
  then show "l \<in> e_label ` set xs" by (metis imageI nth_mem)
next
  assume "l \<in> e_label ` set xs"
  then obtain i where i: "i < length xs" "e_label (xs ! i) = l"
    by (auto simp: in_set_conv_nth)
  let ?r = "lower_bound xs l"
  from lower_bound_partition[OF srt, of l]
  have lo: "\<forall>k < ?r. e_label (xs ! k) < l"
    and hi: "\<forall>k. ?r \<le> k \<and> k < length xs \<longrightarrow> l \<le> e_label (xs ! k)" by blast+
  have ri: "?r \<le> i"
  proof (rule ccontr)
    assume "\<not> ?r \<le> i"
    then have "i < ?r" by simp
    with lo i show False by auto
  qed
  have "?r = i"
  proof (rule ccontr)
    assume "?r \<noteq> i"
    with ri have lt: "?r < i" by simp
    from sorted_labels_nth_less[OF srt lt i(1)] i(2) have "e_label (xs ! ?r) < l" by simp
    moreover from hi lt i(1) have "l \<le> e_label (xs ! ?r)" by simp
    ultimately show False by simp
  qed
  with i show "?r < length xs \<and> e_label (xs ! ?r) = l" by simp
qed

lemma insert_sorted:
  assumes srt: "sorted_wrt (<) (map e_label xs)" and new: "l \<notin> e_label ` set xs"
  shows "sorted_wrt (<) (map e_label (take (lower_bound xs l) xs @ [\<lparr>e_label = l, e_nid = n\<rparr>]
                                       @ drop (lower_bound xs l) xs))"
proof -
  let ?r = "lower_bound xs l"
  from lower_bound_partition[OF srt, of l]
  have lo: "\<forall>k < ?r. e_label (xs ! k) < l"
    and hi: "\<forall>k. ?r \<le> k \<and> k < length xs \<longrightarrow> l \<le> e_label (xs ! k)" by blast+
  have rlen: "?r \<le> length xs" by (rule lower_bound_le)
  have before: "\<forall>x \<in> set (take ?r xs). e_label x < l"
  proof
    fix x assume "x \<in> set (take ?r xs)"
    then obtain k where "k < ?r" "k < length xs" "x = xs ! k"
      using rlen by (auto simp: in_set_conv_nth)
    with lo show "e_label x < l" by simp
  qed
  have after: "\<forall>x \<in> set (drop ?r xs). l < e_label x"
  proof
    fix x assume x: "x \<in> set (drop ?r xs)"
    then obtain k where k: "k < length xs - ?r" "x = xs ! (?r + k)"
      by (auto simp: in_set_conv_nth)
    then have "l \<le> e_label x" using hi by simp
    moreover from x have "x \<in> set xs" by (rule in_set_dropD)
    with new have "e_label x \<noteq> l" by auto
    ultimately show "l < e_label x" by simp
  qed
  have parts: "sorted_wrt (<) (map e_label (take ?r xs))" "sorted_wrt (<) (map e_label (drop ?r xs))"
    using srt by (simp_all add: take_map[symmetric] drop_map[symmetric])
  have cross: "\<forall>x \<in> set (take ?r xs). \<forall>y \<in> set (drop ?r xs). e_label x < e_label y"
    using before after by fastforce
  show ?thesis
    using parts before after cross by (simp add: sorted_wrt_append)
qed

lemma resolve_or_create_props:
  assumes wf: "wf_tree dimen t"
  shows "wf_tree dimen (fst (resolve_or_create t l))
       \<and> snd (resolve_or_create t l) < length (t_mapping (fst (resolve_or_create t l)))
       \<and> e_label (t_mapping (fst (resolve_or_create t l)) ! snd (resolve_or_create t l)) = l
       \<and> (l \<in> e_label ` set (t_mapping t) \<longrightarrow> fst (resolve_or_create t l) = t)
       \<and> (l \<notin> e_label ` set (t_mapping t) \<longrightarrow>
            t_nodes (fst (resolve_or_create t l)) = t_nodes t @ [node_new]
          \<and> t_mapping (fst (resolve_or_create t l)) =
              take (lower_bound (t_mapping t) l) (t_mapping t)
              @ [\<lparr>e_label = l, e_nid = length (t_nodes t)\<rparr>]
              @ drop (lower_bound (t_mapping t) l) (t_mapping t))"
proof -
  let ?xs = "t_mapping t"
  let ?r = "lower_bound ?xs l"
  from wf have wfn: "wf_nodes dimen (t_nodes t)"
    and srt: "sorted_wrt (<) (map e_label ?xs)"
    and nid: "\<forall>e \<in> set ?xs. e_nid e < length (t_nodes t)"
    by (simp_all add: wf_tree_def wf_mapping_def)
  have rlen: "?r \<le> length ?xs" by (rule lower_bound_le)
  note found = lower_bound_found_iff[OF srt, of l]
  show ?thesis
  proof (cases "l \<in> e_label ` set ?xs")
    case True
    with found have f: "?r < length ?xs" "e_label (?xs ! ?r) = l" by simp_all
    then have "resolve_or_create t l = (t, ?r)"
      by (simp add: resolve_or_create_def Let_def)
    with True f wf show ?thesis by simp
  next
    case False
    with found have nf: "?r = length ?xs \<or> e_label (?xs ! ?r) \<noteq> l"
      using rlen by auto
    let ?new = "\<lparr>e_label = l, e_nid = length (t_nodes t)\<rparr>"
    let ?m = "take ?r ?xs @ [?new] @ drop ?r ?xs"
    let ?t' = "t\<lparr>t_nodes := t_nodes t @ [node_new], t_mapping := ?m\<rparr>"
    have eq: "resolve_or_create t l = (?t', ?r)"
      using nf by (simp add: resolve_or_create_def Let_def)
    have nodes: "wf_nodes dimen (t_nodes t @ [node_new])"
      unfolding wf_nodes_def
    proof (intro allI impI)
      fix i assume i: "i < length (t_nodes t @ [node_new])"
      show "wf_node dimen (length (t_nodes t @ [node_new])) i ((t_nodes t @ [node_new]) ! i)"
      proof (cases "i < length (t_nodes t)")
        case True
        with wfn have "wf_node dimen (length (t_nodes t)) i (t_nodes t ! i)"
          by (simp add: wf_nodes_def)
        then have "wf_node dimen (length (t_nodes t @ [node_new])) i (t_nodes t ! i)"
          by (rule wf_node_mono) simp
        with True show ?thesis by (simp add: nth_append)
      next
        case False
        with i have "i = length (t_nodes t)" by simp
        then show ?thesis by (simp add: wf_node_node_new)
      qed
    qed
    have set_m: "set ?m = insert ?new (set ?xs)"
    proof -
      have "set ?m = set (take ?r ?xs) \<union> set (drop ?r ?xs) \<union> {?new}" by auto
      also have "set (take ?r ?xs) \<union> set (drop ?r ?xs) = set ?xs"
        by (metis append_take_drop_id set_append)
      finally show ?thesis by auto
    qed
    have nids: "\<forall>e \<in> set ?m. e_nid e < length (t_nodes t @ [node_new])"
      unfolding set_m using nid by (auto simp: less_Suc_eq)
    have "wf_tree dimen ?t'"
      using nodes insert_sorted[OF srt False] nids by (simp add: wf_tree_def wf_mapping_def)
    moreover have "?r < length ?m" using rlen by simp
    moreover have "e_label (?m ! ?r) = l" using rlen by (simp add: nth_append)
    ultimately show ?thesis using False unfolding eq by simp
  qed
qed

lemma update_step:
  assumes wf: "wf_tree dimen t" and pt: "dimen \<le> length point"
    and obs: "\<forall>q v. 0 < q_cnt (qvar_add D q v)"
  shows "\<exists>t' g'. update D t l point dimen nval delta options g = Some (Inr (t', g'))
       \<and> wf_tree dimen t' \<and> length (t_nodes t) \<le> length (t_nodes t')
       \<and> (l \<in> e_label ` set (t_mapping t) \<longrightarrow> t_mapping t' = t_mapping t)
       \<and> (l \<notin> e_label ` set (t_mapping t) \<longrightarrow>
            length (t_nodes t) < length (t_nodes t')
          \<and> t_mapping t' =
              take (lower_bound (t_mapping t) l) (t_mapping t)
              @ [\<lparr>e_label = l, e_nid = length (t_nodes t)\<rparr>]
              @ drop (lower_bound (t_mapping t) l) (t_mapping t))"
proof -
  let ?t0 = "t\<lparr>t_dimen := dimen\<rparr>"
  have wf0: "wf_tree dimen ?t0" using wf by (simp add: wf_tree_def)
  define t1 where "t1 = fst (resolve_or_create ?t0 l)"
  define res where "res = snd (resolve_or_create ?t0 l)"
  have rc: "resolve_or_create ?t0 l = (t1, res)" by (simp add: t1_def res_def)
  from resolve_or_create_props[OF wf0, of l, folded t1_def res_def]
  have wf1: "wf_tree dimen t1" and rlt: "res < length (t_mapping t1)"
    and lab: "e_label (t_mapping t1 ! res) = l"
    and old: "l \<in> e_label ` set (t_mapping t) \<longrightarrow> t1 = ?t0"
    and new: "l \<notin> e_label ` set (t_mapping t) \<longrightarrow>
            t_nodes t1 = t_nodes t @ [node_new]
          \<and> t_mapping t1 =
              take (lower_bound (t_mapping t) l) (t_mapping t)
              @ [\<lparr>e_label = l, e_nid = length (t_nodes t)\<rparr>]
              @ drop (lower_bound (t_mapping t) l) (t_mapping t)"
    by simp_all
  from wf1 have wfn: "wf_nodes dimen (t_nodes t1)"
    and srt: "sorted_wrt (<) (map e_label (t_mapping t1))"
    and nid: "\<forall>e \<in> set (t_mapping t1). e_nid e < length (t_nodes t1)"
    by (simp_all add: wf_tree_def wf_mapping_def)
  from nid rlt have root: "e_nid (t_mapping t1 ! res) < length (t_nodes t1)" by simp
  from get_leaf_total[OF wfn pt root] obtain n where
    n: "get_leaf (t_nodes t1) point (e_nid (t_mapping t1 ! res)) = Some (Inr n)"
    and nlt: "n < length (t_nodes t1)" and nleaf: "\<not> is_split (n_split (t_nodes t1 ! n))"
    by blast
  from node_update_wf[OF wfn nlt nleaf pt obs, of nval delta options g] obtain nodes' g' where
    nu: "node_update D point dimen nval (t_nodes t1) n delta options g = Inr (nodes', g')"
    and wfn': "wf_nodes dimen nodes'" and grow: "length (t_nodes t1) \<le> length nodes'"
    by blast
  have upd: "update D t l point dimen nval delta options g = Some (Inr (t1\<lparr>t_nodes := nodes'\<rparr>, g'))"
    by (simp add: update_def rc lab n nu)
  have wf': "wf_tree dimen (t1\<lparr>t_nodes := nodes'\<rparr>)"
    using wfn' srt nid grow by (auto simp: wf_tree_def wf_mapping_def)
  have len: "length (t_nodes t) \<le> length (t_nodes t1)"
    using old new by (cases "l \<in> e_label ` set (t_mapping t)") auto
  have a: "l \<in> e_label ` set (t_mapping t) \<longrightarrow> t_mapping (t1\<lparr>t_nodes := nodes'\<rparr>) = t_mapping t"
    using old by auto
  have b: "l \<notin> e_label ` set (t_mapping t) \<longrightarrow>
            length (t_nodes t) < length (t_nodes (t1\<lparr>t_nodes := nodes'\<rparr>))
          \<and> t_mapping (t1\<lparr>t_nodes := nodes'\<rparr>) =
              take (lower_bound (t_mapping t) l) (t_mapping t)
              @ [\<lparr>e_label = l, e_nid = length (t_nodes t)\<rparr>]
              @ drop (lower_bound (t_mapping t) l) (t_mapping t)"
    using new grow by auto
  have c: "length (t_nodes t) \<le> length (t_nodes (t1\<lparr>t_nodes := nodes'\<rparr>))"
    using len grow by simp
  from upd wf' a b c show ?thesis by blast
qed

text \<open>What one update does to the entries of the label index.\<close>

lemma update_step_entries:
  assumes wf: "wf_tree dimen t" and pt: "dimen \<le> length point"
    and obs: "\<forall>q v. 0 < q_cnt (qvar_add D q v)"
  shows "\<exists>t' g'. update D t l point dimen nval delta options g = Some (Inr (t', g'))
       \<and> wf_tree dimen t' \<and> length (t_nodes t) \<le> length (t_nodes t')
       \<and> set (t_mapping t') =
           (if l \<in> e_label ` set (t_mapping t) then set (t_mapping t)
            else insert \<lparr>e_label = l, e_nid = length (t_nodes t)\<rparr> (set (t_mapping t)))
       \<and> (l \<in> e_label ` set (t_mapping t) \<longrightarrow> t_mapping t' = t_mapping t)
       \<and> (l \<notin> e_label ` set (t_mapping t) \<longrightarrow> length (t_nodes t) < length (t_nodes t'))"
proof -
  from update_step[OF assms, of l nval delta options g] obtain t' g' where
    u: "update D t l point dimen nval delta options g = Some (Inr (t', g'))"
    and w: "wf_tree dimen t'" and g: "length (t_nodes t) \<le> length (t_nodes t')"
    and a: "l \<in> e_label ` set (t_mapping t) \<longrightarrow> t_mapping t' = t_mapping t"
    and b: "l \<notin> e_label ` set (t_mapping t) \<longrightarrow>
            length (t_nodes t) < length (t_nodes t')
          \<and> t_mapping t' =
              take (lower_bound (t_mapping t) l) (t_mapping t)
              @ [\<lparr>e_label = l, e_nid = length (t_nodes t)\<rparr>]
              @ drop (lower_bound (t_mapping t) l) (t_mapping t)"
    by blast
  have s: "set (t_mapping t') =
           (if l \<in> e_label ` set (t_mapping t) then set (t_mapping t)
            else insert \<lparr>e_label = l, e_nid = length (t_nodes t)\<rparr> (set (t_mapping t)))"
  proof (cases "l \<in> e_label ` set (t_mapping t)")
    case True
    with a show ?thesis by simp
  next
    case False
    let ?r = "lower_bound (t_mapping t) l"
    have "set (take ?r (t_mapping t)) \<union> set (drop ?r (t_mapping t)) = set (t_mapping t)"
      by (metis append_take_drop_id set_append)
    with False b show ?thesis by auto
  qed
  from u w g s a b show ?thesis by blast
qed

lemma updates_entries:
  assumes obs: "\<forall>q v. 0 < q_cnt (qvar_add D q v)"
  shows "wf_tree dimen t \<Longrightarrow> \<forall>c \<in> set calls. dimen \<le> length (c_point c) \<Longrightarrow>
     \<exists>t' g'. updates D dimen calls (t, g) = Some (Inr (t', g'))
       \<and> wf_tree dimen t'
       \<and> e_label ` set (t_mapping t') = e_label ` set (t_mapping t) \<union> c_label ` set calls
       \<and> set (t_mapping t) \<subseteq> set (t_mapping t')
       \<and> (\<forall>e \<in> set (t_mapping t'). e \<notin> set (t_mapping t) \<longrightarrow> length (t_nodes t) \<le> e_nid e)
       \<and> length (t_nodes t) \<le> length (t_nodes t')"
proof (induction calls arbitrary: t g)
  case Nil
  then show ?case by simp
next
  case (Cons c cs)
  from Cons.prems(2) have pt: "dimen \<le> length (c_point c)"
    and rest: "\<forall>c \<in> set cs. dimen \<le> length (c_point c)" by simp_all
  from update_step_entries[OF Cons.prems(1) pt obs, of "c_label c" "c_nval c" "c_delta c" "c_options c" g]
  obtain t1 g1 where
    u: "update D t (c_label c) (c_point c) dimen (c_nval c) (c_delta c) (c_options c) g
          = Some (Inr (t1, g1))"
    and w1: "wf_tree dimen t1" and grow1: "length (t_nodes t) \<le> length (t_nodes t1)"
    and set1: "set (t_mapping t1) =
           (if c_label c \<in> e_label ` set (t_mapping t) then set (t_mapping t)
            else insert \<lparr>e_label = c_label c, e_nid = length (t_nodes t)\<rparr> (set (t_mapping t)))"
    by blast
  from Cons.IH[OF w1 rest, of g1] obtain t' g' where
    us: "updates D dimen cs (t1, g1) = Some (Inr (t', g'))"
    and w': "wf_tree dimen t'"
    and labs: "e_label ` set (t_mapping t') = e_label ` set (t_mapping t1) \<union> c_label ` set cs"
    and sub: "set (t_mapping t1) \<subseteq> set (t_mapping t')"
    and fresh: "\<forall>e \<in> set (t_mapping t'). e \<notin> set (t_mapping t1) \<longrightarrow> length (t_nodes t1) \<le> e_nid e"
    and grow: "length (t_nodes t1) \<le> length (t_nodes t')"
    by blast
  have run: "updates D dimen (c # cs) (t, g) = Some (Inr (t', g'))"
    by (simp add: u us)
  have labs1: "e_label ` set (t_mapping t1) = insert (c_label c) (e_label ` set (t_mapping t))"
    unfolding set1 by auto
  have l: "e_label ` set (t_mapping t') = e_label ` set (t_mapping t) \<union> c_label ` set (c # cs)"
    unfolding labs labs1 by auto
  have s0: "set (t_mapping t) \<subseteq> set (t_mapping t1)" unfolding set1 by auto
  with sub have s: "set (t_mapping t) \<subseteq> set (t_mapping t')" by blast
  have f: "\<forall>e \<in> set (t_mapping t'). e \<notin> set (t_mapping t) \<longrightarrow> length (t_nodes t) \<le> e_nid e"
  proof (intro ballI impI)
    fix e assume e: "e \<in> set (t_mapping t')" "e \<notin> set (t_mapping t)"
    show "length (t_nodes t) \<le> e_nid e"
    proof (cases "e \<in> set (t_mapping t1)")
      case True
      with e(2) have "e = \<lparr>e_label = c_label c, e_nid = length (t_nodes t)\<rparr>"
        unfolding set1 by (auto split: if_splits)
      then show ?thesis by simp
    next
      case False
      with fresh e(1) have "length (t_nodes t1) \<le> e_nid e" by blast
      with grow1 show ?thesis by simp
    qed
  qed
  from run w' l s f grow grow1 show ?case
    by (intro exI[of _ t'] exI[of _ g']) simp
qed

text \<open>
  C9. Along every sequence of updates of a well-formed tree (the empty tree is one) every
  call returns, and the label index stays strictly sorted by label, so it has at most one
  entry per label; its labels are the labels it had and the labels of the calls; every
  entry it had is still there with the same root index; and every new entry has as root an
  index that the arena did not have before. One update with a label that has no entry
  appends a fresh leaf to the arena and makes the entry of the label with the index of this
  leaf as root; one update with a label that has an entry leaves the label index as it is.
\<close>

theorem label_index_sorted_unique_stable:
  assumes "wf_tree dimen t" and "\<forall>c \<in> set calls. dimen \<le> length (c_point c)"
    and "dimen \<le> length point"
    and "\<forall>q v. 0 < q_cnt (qvar_add D q v)"
  shows "(\<exists>t' g'. updates D dimen calls (t, g) = Some (Inr (t', g'))
       \<and> wf_tree dimen t'
       \<and> sorted_wrt (<) (map e_label (t_mapping t'))
       \<and> distinct (map e_label (t_mapping t'))
       \<and> e_label ` set (t_mapping t') = e_label ` set (t_mapping t) \<union> c_label ` set calls
       \<and> set (t_mapping t) \<subseteq> set (t_mapping t')
       \<and> (\<forall>e \<in> set (t_mapping t'). e \<notin> set (t_mapping t) \<longrightarrow> length (t_nodes t) \<le> e_nid e)
       \<and> length (t_nodes t) \<le> length (t_nodes t'))
     \<and> (\<exists>t1 g1. update D t l point dimen nval delta options g = Some (Inr (t1, g1))
       \<and> (l \<in> e_label ` set (t_mapping t) \<longrightarrow> t_mapping t1 = t_mapping t)
       \<and> (l \<notin> e_label ` set (t_mapping t) \<longrightarrow>
            t_nodes (fst (resolve_or_create (t\<lparr>t_dimen := dimen\<rparr>) l)) = t_nodes t @ [node_new]
          \<and> \<not> is_split (n_split (node_new :: 'a node_t))
          \<and> length (t_nodes t) < length (t_nodes t1)
          \<and> t_mapping t1 =
              take (lower_bound (t_mapping t) l) (t_mapping t)
              @ [\<lparr>e_label = l, e_nid = length (t_nodes t)\<rparr>]
              @ drop (lower_bound (t_mapping t) l) (t_mapping t)))"
proof -
  from updates_entries[OF assms(4,1,2), of g] obtain t' g' where
    r: "updates D dimen calls (t, g) = Some (Inr (t', g'))"
    and w: "wf_tree dimen t'"
    and rest: "e_label ` set (t_mapping t') = e_label ` set (t_mapping t) \<union> c_label ` set calls"
      "set (t_mapping t) \<subseteq> set (t_mapping t')"
      "\<forall>e \<in> set (t_mapping t'). e \<notin> set (t_mapping t) \<longrightarrow> length (t_nodes t) \<le> e_nid e"
      "length (t_nodes t) \<le> length (t_nodes t')"
    by blast
  from w have srt: "sorted_wrt (<) (map e_label (t_mapping t'))"
    by (simp add: wf_tree_def wf_mapping_def)
  then have dist: "distinct (map e_label (t_mapping t'))"
    by (simp add: strict_sorted_iff)
  have one: "\<exists>t' g'. updates D dimen calls (t, g) = Some (Inr (t', g'))
       \<and> wf_tree dimen t'
       \<and> sorted_wrt (<) (map e_label (t_mapping t'))
       \<and> distinct (map e_label (t_mapping t'))
       \<and> e_label ` set (t_mapping t') = e_label ` set (t_mapping t) \<union> c_label ` set calls
       \<and> set (t_mapping t) \<subseteq> set (t_mapping t')
       \<and> (\<forall>e \<in> set (t_mapping t'). e \<notin> set (t_mapping t) \<longrightarrow> length (t_nodes t) \<le> e_nid e)
       \<and> length (t_nodes t) \<le> length (t_nodes t')"
    using r w srt dist rest by blast
  have wf0: "wf_tree dimen (t\<lparr>t_dimen := dimen\<rparr>)" using assms(1) by (simp add: wf_tree_def)
  have fresh: "l \<notin> e_label ` set (t_mapping t) \<longrightarrow>
      t_nodes (fst (resolve_or_create (t\<lparr>t_dimen := dimen\<rparr>) l)) = t_nodes t @ [node_new]"
    using resolve_or_create_props[OF wf0, of l] by simp
  have leaf: "\<not> is_split (n_split (node_new :: 'a node_t))" by (simp add: node_new_def)
  from update_step[OF assms(1,3,4), of l nval delta options g] fresh leaf
  have two: "\<exists>t1 g1. update D t l point dimen nval delta options g = Some (Inr (t1, g1))
       \<and> (l \<in> e_label ` set (t_mapping t) \<longrightarrow> t_mapping t1 = t_mapping t)
       \<and> (l \<notin> e_label ` set (t_mapping t) \<longrightarrow>
            t_nodes (fst (resolve_or_create (t\<lparr>t_dimen := dimen\<rparr>) l)) = t_nodes t @ [node_new]
          \<and> \<not> is_split (n_split (node_new :: 'a node_t))
          \<and> length (t_nodes t) < length (t_nodes t1)
          \<and> t_mapping t1 =
              take (lower_bound (t_mapping t) l) (t_mapping t)
              @ [\<lparr>e_label = l, e_nid = length (t_nodes t)\<rparr>]
              @ drop (lower_bound (t_mapping t) l) (t_mapping t))"
    by blast
  from one two show ?thesis by blast
qed

lemma demo_run:
  "\<exists>t' g'. updates (ref_deps solver_fails) 1 [demo_call 7, demo_call 3, demo_call 7] (tree_new, [])
     = Some (Inr (t', g')) \<and> t_mapping t' = [entry 3 1, entry 7 0] \<and> length (t_nodes t') = 2"
  by (simp add: demo_call_def tree_new_def update_def resolve_or_create_def lower_bound_def
      lower_bound_from.simps get_leaf.simps node_update_def for_loop.simps update_dim_def
      observe_dim_def rebalance_def rebalance_dim_def reset_filter_def ref_deps_def
      ref_qvar_add_def ref_avg_add_def ref_avg_merge_def ref_sf_add_def options_with_def
      qdata_new_def node_new_def avg_zero_def qvar_zero_def dge_def deq_def entry_def Let_def)

lemma tree_new_wf: "wf_tree dimen tree_new"
  by (simp add: wf_tree_def wf_nodes_def wf_mapping_def tree_new_def)

theorem label_index_sorted_unique_stable_witness:
  "wf_tree 1 (tree_new :: dbl tree)
   \<and> (\<exists>t' g'. updates (ref_deps solver_fails) 1 [demo_call 7, demo_call 3, demo_call 7]
                 (tree_new, []) = Some (Inr (t', g'))
        \<and> t_mapping t' = [entry 3 1, entry 7 0]
        \<and> sorted_wrt (<) (map e_label (t_mapping t'))
        \<and> distinct (map e_label (t_mapping t'))
        \<and> e_label ` set (t_mapping t') = {3, 7})"
proof -
  let ?D = "ref_deps solver_fails"
  let ?calls = "[demo_call 7, demo_call 3, demo_call 7]"
  have pts: "\<forall>c \<in> set ?calls. 1 \<le> length (c_point c)" by (simp add: demo_call_def)
  have pt: "1 \<le> length [Fin 0]" by simp
  from label_index_sorted_unique_stable[where D = ?D and g = "[]" and l = 7 and nval = "Fin 1"
      and delta = "Fin 1" and options = "options_with (Fin 1)",
      OF tree_new_wf pts pt ref_qvar_add_pos]
  obtain t' g' where
    run: "updates ?D 1 ?calls (tree_new, []) = Some (Inr (t', g'))"
    and srt: "sorted_wrt (<) (map e_label (t_mapping t'))"
    and dist: "distinct (map e_label (t_mapping t'))"
    and labs: "e_label ` set (t_mapping t') =
                 e_label ` set (t_mapping (tree_new :: dbl tree)) \<union> c_label ` set ?calls"
    by blast
  from demo_run obtain t'' g'' where
    run': "updates ?D 1 ?calls (tree_new, []) = Some (Inr (t'', g''))"
    and m: "t_mapping t'' = [entry 3 1, entry 7 0]"
    by blast
  from run run' have same: "t' = t''" by simp
  have l: "e_label ` set (t_mapping t') = {3, 7}"
    unfolding labs by (auto simp: tree_new_def demo_call_def)
  from run srt dist l m same tree_new_wf show ?thesis by blast
qed

end
